theory Spec2Isabelle
  imports Main "HOL-Library.Multiset"
begin

section \<open>Data model\<close>

text \<open>
  A competitor is the object \<^verbatim>\<open>{ name, rank }\<close> of the ranking lists. JavaScript numbers
  that hold seed ranks, round numbers, win counts and game counts are modelled as
  unbounded integers.
\<close>

record competitor =
  name :: string
  rank :: int

section \<open>Seeder\<close>

text \<open>
  \<^verbatim>\<open>splitSnake\<close> walks the list with \<^verbatim>\<open>forEach((p, idx) => ...)\<close> and pushes
  \<^verbatim>\<open>{ ...p, rank: idx + 1 }\<close> to one of the two arrays. The walk is a recursion over the
  remaining list that carries the index and both arrays; the returned object
  \<^verbatim>\<open>{ A, B }\<close> is the pair of the two arrays.
\<close>

fun splitSnake_loop ::
  "competitor list \<Rightarrow> nat \<Rightarrow> competitor list \<Rightarrow> competitor list
     \<Rightarrow> competitor list \<times> competitor list" where
  "splitSnake_loop [] idx A B = (A, B)"
| "splitSnake_loop (p # ps) idx A B =
     (let pair = idx div 2;
          evenPair = (pair mod 2 = 0)
      in if evenPair then
           (if idx mod 2 = 0
            then splitSnake_loop ps (idx + 1) (A @ [p\<lparr>rank := int idx + 1\<rparr>]) B
            else splitSnake_loop ps (idx + 1) A (B @ [p\<lparr>rank := int idx + 1\<rparr>]))
         else
           (if idx mod 2 = 0
            then splitSnake_loop ps (idx + 1) A (B @ [p\<lparr>rank := int idx + 1\<rparr>])
            else splitSnake_loop ps (idx + 1) (A @ [p\<lparr>rank := int idx + 1\<rparr>]) B))"

definition splitSnake :: "competitor list \<Rightarrow> competitor list \<times> competitor list" where
  "splitSnake list = splitSnake_loop list 0 [] []"

text \<open>
  The other branch of \<^verbatim>\<open>splitGroups\<close>: \<^verbatim>\<open>half = Math.ceil(list.length / 2)\<close>, and the
  walk sends index \<^verbatim>\<open>idx < half\<close> to A, the rest to B.
\<close>

fun splitHalf_loop ::
  "competitor list \<Rightarrow> nat \<Rightarrow> nat \<Rightarrow> competitor list \<Rightarrow> competitor list
     \<Rightarrow> competitor list \<times> competitor list" where
  "splitHalf_loop [] half idx A B = (A, B)"
| "splitHalf_loop (p # ps) half idx A B =
     (let newRank = int idx + 1
      in if idx < half
         then splitHalf_loop ps half (idx + 1) (A @ [p\<lparr>rank := newRank\<rparr>]) B
         else splitHalf_loop ps half (idx + 1) A (B @ [p\<lparr>rank := newRank\<rparr>]))"

definition splitGroups ::
  "competitor list \<Rightarrow> string \<Rightarrow> competitor list \<times> competitor list" where
  "splitGroups list algo =
     (if algo = ''had'' then splitSnake list
      else (let half = (length list + 1) div 2
            in splitHalf_loop list half 0 [] []))"

text \<open>
  The master ranking with every rank overwritten by the 1-based position, counted from
  a starting index: what a split has to distribute.
\<close>

fun ranked_from :: "nat \<Rightarrow> competitor list \<Rightarrow> competitor list" where
  "ranked_from idx [] = []"
| "ranked_from idx (p # ps) = p\<lparr>rank := int idx + 1\<rparr> # ranked_from (idx + 1) ps"

definition ranked :: "competitor list \<Rightarrow> competitor list" where
  "ranked list = ranked_from 0 list"

text \<open>
  The snake rule in the words of the specification: positions are grouped in pairs
  \<open>(2k, 2k + 1)\<close>; in a pair with even index \<open>k\<close> the lower position goes to A, in a
  pair with odd index the higher position goes to A; the other member goes to B.
\<close>

definition snake_to_A :: "nat \<Rightarrow> bool" where
  "snake_to_A idx = (let k = idx div 2 in if even k then idx = 2 * k else idx = 2 * k + 1)"

text \<open>
  The sublist of the entries whose position, counted from \<open>idx\<close>, satisfies a
  predicate: the shape of either group.
\<close>

definition by_index :: "(nat \<Rightarrow> bool) \<Rightarrow> nat \<Rightarrow> 'a list \<Rightarrow> 'a list" where
  "by_index P idx xs = map snd (filter (\<lambda>(i, x). P i) (enumerate idx xs))"

section \<open>Scheduler\<close>

text \<open>
  The working array \<^verbatim>\<open>t\<close> of \<^verbatim>\<open>roundRobin\<close> holds the competitors and, for an odd
  group, the object \<^verbatim>\<open>{ name: 'VOLNO', bye: true }\<close>. Competitors have no \<^verbatim>\<open>bye\<close>
  field, so \<^verbatim>\<open>a?.bye\<close> is truthy for the placeholder only.
\<close>

datatype slot = Team competitor | BYE

fun is_bye :: "slot \<Rightarrow> bool" where
  "is_bye BYE = True"
| "is_bye (Team p) = False"

fun slot_name :: "slot \<Rightarrow> string" where
  "slot_name (Team p) = name p"
| "slot_name BYE = ''VOLNO''"

record fixture =
  round_no :: int
  matches :: "(string \<times> string) list"

text \<open>
  The inner loop \<^verbatim>\<open>for (let i = 0; i < half; i++)\<close>. Both reads \<^verbatim>\<open>t[i]\<close> and
  \<^verbatim>\<open>t[n - 1 - i]\<close> are in range, because \<^verbatim>\<open>n\<close> is the length of \<^verbatim>\<open>t\<close> and
  \<^verbatim>\<open>i < n / 2\<close>.
\<close>

function pairs_loop ::
  "slot list \<Rightarrow> nat \<Rightarrow> nat \<Rightarrow> nat \<Rightarrow> (string \<times> string) list \<Rightarrow> (string \<times> string) list" where
  "pairs_loop t n half i pairs =
     (if i < half then
        (let a = t ! i;
             b = t ! (n - 1 - i)
         in if is_bye a \<or> is_bye b then pairs_loop t n half (i + 1) pairs
            else pairs_loop t n half (i + 1) (pairs @ [(slot_name a, slot_name b)]))
      else pairs)"
  by pat_completeness auto
termination
  by (relation "measure (\<lambda>(t, n, half, i, pairs). half - i)") auto

text \<open>
  \<^verbatim>\<open>t.splice(1, 0, t.pop())\<close>: the argument is evaluated first, so the last element is
  removed and then inserted at index 1 of the shortened array.
\<close>

definition rotate_tail :: "'a list \<Rightarrow> 'a list" where
  "rotate_tail t = (let x = last t; u = butlast t in take 1 u @ x # drop 1 u)"

text \<open>
  The outer loop \<^verbatim>\<open>for (let r = 0; r < rounds; r++)\<close>, with \<^verbatim>\<open>rounds = n - 1\<close> an
  integer that is \<open>-1\<close> for the empty array.
\<close>

function rounds_loop ::
  "slot list \<Rightarrow> nat \<Rightarrow> int \<Rightarrow> nat \<Rightarrow> nat \<Rightarrow> fixture list \<Rightarrow> fixture list" where
  "rounds_loop t n rounds half r schedule =
     (if int r < rounds then
        (let pairs = pairs_loop t n half 0 []
         in rounds_loop (rotate_tail t) n rounds half (r + 1)
              (schedule @ [\<lparr>round_no = int r + 1, matches = pairs\<rparr>]))
      else schedule)"
  by pat_completeness auto
termination
  by (relation "measure (\<lambda>(t, n, rounds, half, r, schedule). nat (rounds - int r))") auto

definition roundRobin :: "competitor list \<Rightarrow> fixture list" where
  "roundRobin teams =
     (let t = map Team teams @ (if length teams mod 2 = 1 then [BYE] else []);
          n = length t;
          rounds = int n - 1;
          half = n div 2
      in rounds_loop t n rounds half 0 [])"

text \<open>All pairings of a schedule in the order of play, and the names of one round.\<close>

definition pairings :: "fixture list \<Rightarrow> (string \<times> string) list" where
  "pairings schedule = concat (map matches schedule)"

definition names_in :: "(string \<times> string) list \<Rightarrow> string list" where
  "names_in ms = concat (map (\<lambda>(x, y). [x, y]) ms)"

definition meets :: "string \<Rightarrow> string \<Rightarrow> string \<times> string \<Rightarrow> bool" where
  "meets x y pr = (pr = (x, y) \<or> pr = (y, x))"

section \<open>Standings calculator\<close>

text \<open>
  A table row is \<^verbatim>\<open>{ name, rank, W, L, GF, GA, GD }\<close>; a result record is
  \<^verbatim>\<open>{ a, b, round, ag, bg }\<close> with the two scores kept as text.
\<close>

record row = competitor +
  W :: int
  L :: int
  GF :: int
  GA :: int
  GD :: int

record match_result =
  res_a :: string
  res_b :: string
  res_round :: int
  ag :: string
  bg :: string

text \<open>
  The result object of a group is the list of its entries in enumeration order; a value
  that is \<^verbatim>\<open>null\<close> (skipped by \<^verbatim>\<open>if (!m) return\<close>) is \<open>None\<close>.
\<close>

type_synonym results = "(string \<times> match_result option) list"

definition Object_values :: "results \<Rightarrow> match_result option list" where
  "Object_values resultsForGroup = map snd resultsForGroup"

definition initial_table :: "competitor list \<Rightarrow> row list" where
  "initial_table players =
     map (\<lambda>p. \<lparr>name = name p, rank = rank p, W = 0, L = 0, GF = 0, GA = 0, GD = 0\<rparr>) players"

text \<open>
  \<^verbatim>\<open>Object.fromEntries(table.map((r, i) => [r.name, i]))\<close>: a later entry with the same
  name replaces an earlier one. A lookup is the lookup of an own property.
\<close>

definition fromEntries :: "(string \<times> nat) list \<Rightarrow> (string \<rightharpoonup> nat)" where
  "fromEntries entries = fold (\<lambda>(k, v) m. m(k \<mapsto> v)) entries Map.empty"

definition index_of :: "row list \<Rightarrow> (string \<rightharpoonup> nat)" where
  "index_of table = fromEntries (zip (map name table) [0..<length table])"

text \<open>An assignment to a field of \<^verbatim>\<open>table[i]\<close>.\<close>

definition upd_row :: "row list \<Rightarrow> nat \<Rightarrow> (row \<Rightarrow> row) \<Rightarrow> row list" where
  "upd_row table i f = table[i := f (table ! i)]"

text \<open>
  The four assignments and the win/loss branch that all versions of \<^verbatim>\<open>calcStandings\<close>
  run for a recorded score, in the order of the source.
\<close>

definition add_score :: "row list \<Rightarrow> nat \<Rightarrow> nat \<Rightarrow> int \<Rightarrow> int \<Rightarrow> row list" where
  "add_score table A B agn bgn =
     (let t1 = upd_row table A (\<lambda>r. r\<lparr>GF := GF r + agn\<rparr>);
          t2 = upd_row t1 A (\<lambda>r. r\<lparr>GA := GA r + bgn\<rparr>);
          t3 = upd_row t2 B (\<lambda>r. r\<lparr>GF := GF r + bgn\<rparr>);
          t4 = upd_row t3 B (\<lambda>r. r\<lparr>GA := GA r + agn\<rparr>)
      in if agn > bgn
         then upd_row (upd_row t4 A (\<lambda>r. r\<lparr>W := W r + 1\<rparr>)) B (\<lambda>r. r\<lparr>L := L r + 1\<rparr>)
         else if bgn > agn
         then upd_row (upd_row t4 B (\<lambda>r. r\<lparr>W := W r + 1\<rparr>)) A (\<lambda>r. r\<lparr>L := L r + 1\<rparr>)
         else t4)"

text \<open>
  \<^verbatim>\<open>Number\<close> and \<^verbatim>\<open>Number.isFinite\<close> are built in. The model takes them as the
  parameter \<open>num\<close>: \<open>num s = Some v\<close> when \<^verbatim>\<open>Number(s)\<close> is the finite number
  \<open>v\<close>, and \<open>None\<close> when it is \<^verbatim>\<open>NaN\<close> or infinite. The test of the source is
  \<^verbatim>\<open>Number.isFinite(agn) && Number.isFinite(bgn) && ag !== '' && bg !== ''\<close>.
\<close>

definition recorded :: "(string \<Rightarrow> int option) \<Rightarrow> match_result \<Rightarrow> (int \<times> int) option" where
  "recorded num m =
     (case (num (ag m), num (bg m)) of
        (Some agn, Some bgn) \<Rightarrow> if ag m \<noteq> '''' \<and> bg m \<noteq> '''' then Some (agn, bgn) else None
      | _ \<Rightarrow> None)"

text \<open>
  The callback of \<^verbatim>\<open>forEach\<close> in the version with the guard
  \<^verbatim>\<open>if (A === undefined || B === undefined) return\<close>.
\<close>

definition tally ::
  "(string \<Rightarrow> int option) \<Rightarrow> (string \<rightharpoonup> nat) \<Rightarrow> row list \<Rightarrow> match_result option \<Rightarrow> row list" where
  "tally num index table mo =
     (case mo of
        None \<Rightarrow> table
      | Some m \<Rightarrow>
          (case (index (res_a m), index (res_b m)) of
             (Some A, Some B) \<Rightarrow>
               (case recorded num m of
                  Some (agn, bgn) \<Rightarrow> add_score table A B agn bgn
                | None \<Rightarrow> table)
           | _ \<Rightarrow> table))"

fun forEach_tally ::
  "(string \<Rightarrow> int option) \<Rightarrow> (string \<rightharpoonup> nat) \<Rightarrow> row list \<Rightarrow> match_result option list \<Rightarrow> row list" where
  "forEach_tally num index table [] = table"
| "forEach_tally num index table (m # ms) = forEach_tally num index (tally num index table m) ms"

text \<open>
  The comparator \<^verbatim>\<open>y.W - x.W || y.GD - x.GD || y.GF - x.GF || x.rank - y.rank\<close>:
  \<^verbatim>\<open>||\<close> yields its left operand unless that is zero.
\<close>

definition compare_rows :: "row \<Rightarrow> row \<Rightarrow> int" where
  "compare_rows x y =
     (if W y - W x \<noteq> 0 then W y - W x
      else if GD y - GD x \<noteq> 0 then GD y - GD x
      else if GF y - GF x \<noteq> 0 then GF y - GF x
      else rank x - rank y)"

text \<open>
  \<^verbatim>\<open>Array.prototype.sort\<close> with a comparator is a stable sort: \<open>x\<close> stays in front of
  \<open>y\<close> unless the comparator is positive. It is modelled as a stable insertion sort.
\<close>

fun insert_by :: "('a \<Rightarrow> 'a \<Rightarrow> int) \<Rightarrow> 'a \<Rightarrow> 'a list \<Rightarrow> 'a list" where
  "insert_by cmp x [] = [x]"
| "insert_by cmp x (y # ys) = (if cmp x y \<le> 0 then x # y # ys else y # insert_by cmp x ys)"

definition sort_by :: "('a \<Rightarrow> 'a \<Rightarrow> int) \<Rightarrow> 'a list \<Rightarrow> 'a list" where
  "sort_by cmp xs = foldr (insert_by cmp) xs []"

definition calcStandings ::
  "(string \<Rightarrow> int option) \<Rightarrow> competitor list \<Rightarrow> results \<Rightarrow> row list" where
  "calcStandings num players resultsForGroup =
     (let table = initial_table players;
          index = index_of table;
          table = forEach_tally num index table (Object_values resultsForGroup);
          table = map (\<lambda>r. r\<lparr>GD := GF r - GA r\<rparr>) table
      in sort_by compare_rows table)"

text \<open>
  The older versions of \<^verbatim>\<open>calcStandings\<close> (in \<^verbatim>\<open>src/App.jsx\<close>) have no guard: for a
  recorded score they read \<^verbatim>\<open>table[A].GF\<close> with \<^verbatim>\<open>A\<close> possibly \<^verbatim>\<open>undefined\<close>, and
  reading a field of \<^verbatim>\<open>undefined\<close> throws a \<^verbatim>\<open>TypeError\<close> that leaves the function.
\<close>

datatype js_error = TypeError

definition tally_App ::
  "(string \<Rightarrow> int option) \<Rightarrow> (string \<rightharpoonup> nat) \<Rightarrow> row list \<Rightarrow> match_result option
     \<Rightarrow> js_error + row list" where
  "tally_App num index table mo =
     (case mo of
        None \<Rightarrow> Inr table
      | Some m \<Rightarrow>
          (case recorded num m of
             Some (agn, bgn) \<Rightarrow>
               (case (index (res_a m), index (res_b m)) of
                  (Some A, Some B) \<Rightarrow> Inr (add_score table A B agn bgn)
                | _ \<Rightarrow> Inl TypeError)
           | None \<Rightarrow> Inr table))"

fun forEach_tally_App ::
  "(string \<Rightarrow> int option) \<Rightarrow> (string \<rightharpoonup> nat) \<Rightarrow> row list \<Rightarrow> match_result option list
     \<Rightarrow> js_error + row list" where
  "forEach_tally_App num index table [] = Inr table"
| "forEach_tally_App num index table (m # ms) =
     (case tally_App num index table m of
        Inl e \<Rightarrow> Inl e
      | Inr table' \<Rightarrow> forEach_tally_App num index table' ms)"

definition calcStandings_App ::
  "(string \<Rightarrow> int option) \<Rightarrow> competitor list \<Rightarrow> results \<Rightarrow> js_error + row list" where
  "calcStandings_App num players resultsForGroup =
     (let table = initial_table players;
          index = index_of table
      in case forEach_tally_App num index table (Object_values resultsForGroup) of
           Inl e \<Rightarrow> Inl e
         | Inr table \<Rightarrow>
             Inr (sort_by compare_rows (map (\<lambda>r. r\<lparr>GD := GF r - GA r\<rparr>) table)))"

section \<open>Bracket projector\<close>






section \<open>Import of a result state\<close>

text \<open>
  What \<^verbatim>\<open>JSON.parse\<close> returns. The result state of the application is such a value:
  \<^verbatim>\<open>setState(parsed)\<close> stores whatever was parsed.
\<close>

datatype json =
  JNull | JBool bool | JNum int | JStr string | JArr "json list" | JObj "(string \<times> json) list"

text \<open>
  Reading the property \<^verbatim>\<open>A\<close> or \<^verbatim>\<open>B\<close>: a \<^verbatim>\<open>TypeError\<close> on \<^verbatim>\<open>null\<close>, the own
  property of an object, and \<^verbatim>\<open>undefined\<close> (here \<open>None\<close>) on every other value.
\<close>

fun get_prop :: "json \<Rightarrow> string \<Rightarrow> js_error + json option" where
  "get_prop JNull k = Inl TypeError"
| "get_prop (JObj kvs) k = Inr (map_of kvs k)"
| "get_prop j k = Inr None"

fun truthy :: "json option \<Rightarrow> bool" where
  "truthy None = False"
| "truthy (Some JNull) = False"
| "truthy (Some (JBool b)) = b"
| "truthy (Some (JNum n)) = (n \<noteq> 0)"
| "truthy (Some (JStr s)) = (s \<noteq> '''')"
| "truthy (Some (JArr xs)) = True"
| "truthy (Some (JObj kvs)) = True"

fun has_key :: "json \<Rightarrow> string \<Rightarrow> bool" where
  "has_key (JObj kvs) k = (k \<in> set (map fst kvs))"
| "has_key j k = False"

text \<open>
  The file handed to \<^verbatim>\<open>onImport\<close>: none chosen, a text that \<^verbatim>\<open>JSON.parse\<close> rejects,
  or a text that parses to a value. The two alerts are the notices.
\<close>

datatype upload = NoFile | Unparsable | Parsed json

datatype notice = BadFormat | CannotLoad

text \<open>
  \<^verbatim>\<open>onImport\<close> of the version that checks \<^verbatim>\<open>parsed.A && parsed.B\<close>; it returns the
  next result state and the notice shown, if any. An exception in the \<^verbatim>\<open>try\<close> block
  ends in the \<^verbatim>\<open>catch\<close> branch.
\<close>

definition onImport :: "upload \<Rightarrow> json \<Rightarrow> json \<times> notice option" where
  "onImport f state =
     (case f of
        NoFile \<Rightarrow> (state, None)
      | Unparsable \<Rightarrow> (state, Some CannotLoad)
      | Parsed parsed \<Rightarrow>
          (case get_prop parsed ''A'' of
             Inl e \<Rightarrow> (state, Some CannotLoad)
           | Inr pA \<Rightarrow>
               if truthy pA then
                 (case get_prop parsed ''B'' of
                    Inl e \<Rightarrow> (state, Some CannotLoad)
                  | Inr pB \<Rightarrow> if truthy pB then (parsed, None) else (state, Some BadFormat))
               else (state, Some BadFormat)))"

text \<open>
  \<^verbatim>\<open>onImport\<close> of \<^verbatim>\<open>src/App.jsx\<close>:
  \<^verbatim>\<open>try { setState(JSON.parse(reader.result)) } catch(e) { alert(...) }\<close>.
\<close>

definition onImport_App :: "upload \<Rightarrow> json \<Rightarrow> json \<times> notice option" where
  "onImport_App f state =
     (case f of
        NoFile \<Rightarrow> (state, None)
      | Unparsable \<Rightarrow> (state, Some CannotLoad)
      | Parsed parsed \<Rightarrow> (parsed, None))"

section \<open>Notions used to state the properties\<close>



text \<open>
  What a list of games gives one competitor: a win for the higher score and a loss for
  the lower one (nothing for a tie), the own scores as games for and the opponent's
  scores as games against.
\<close>

definition wins_of :: "string \<Rightarrow> (string \<times> int \<times> string \<times> int) list \<Rightarrow> int" where
  "wins_of nm games =
     sum_list (map (\<lambda>(a, x, b, y). (if a = nm \<and> x > y then 1 else 0)
                                    + (if b = nm \<and> y > x then 1 else 0)) games)"

definition losses_of :: "string \<Rightarrow> (string \<times> int \<times> string \<times> int) list \<Rightarrow> int" where
  "losses_of nm games =
     sum_list (map (\<lambda>(a, x, b, y). (if a = nm \<and> y > x then 1 else 0)
                                    + (if b = nm \<and> x > y then 1 else 0)) games)"

definition games_for :: "string \<Rightarrow> (string \<times> int \<times> string \<times> int) list \<Rightarrow> int" where
  "games_for nm games =
     sum_list (map (\<lambda>(a, x, b, y). (if a = nm then x else 0) + (if b = nm then y else 0)) games)"

definition games_against :: "string \<Rightarrow> (string \<times> int \<times> string \<times> int) list \<Rightarrow> int" where
  "games_against nm games =
     sum_list (map (\<lambda>(a, x, b, y). (if a = nm then y else 0) + (if b = nm then x else 0)) games)"


text \<open>
  The tie-break chain of the specification: more wins, then the better game difference,
  then more games for, then the lower seed rank.
\<close>

definition ranks_above :: "row \<Rightarrow> row \<Rightarrow> bool" where
  "ranks_above x y =
     (W x > W y \<or>
      (W x = W y \<and> (GD x > GD y \<or>
        (GD x = GD y \<and> (GF x > GF y \<or>
          (GF x = GF y \<and> rank x < rank y))))))"

text \<open>
  An instance of the parameter \<open>num\<close> for the examples: \<^verbatim>\<open>Number\<close> on the strings of
  decimal digits, the empty string included (\<^verbatim>\<open>Number('')\<close> is 0). It is evaluated on
  such strings only.
\<close>

definition is_digit :: "char \<Rightarrow> bool" where
  "is_digit c = (48 \<le> (of_char c :: nat) \<and> (of_char c :: nat) \<le> 57)"

definition Number_decimal :: "string \<Rightarrow> int option" where
  "Number_decimal s =
     (if list_all is_digit s
      then Some (foldl (\<lambda>v c. 10 * v + (int (of_char c) - 48)) 0 s)
      else None)"

text \<open>What one game \<open>(a, agn, b, bgn)\<close> adds to a row, by the name of the row.\<close>

fun credit :: "row \<Rightarrow> string \<times> int \<times> string \<times> int \<Rightarrow> row" where
  "credit r (a, x, b, y) =
     r\<lparr>W := W r + (if name r = a \<and> x > y then 1 else 0) + (if name r = b \<and> y > x then 1 else 0),
       L := L r + (if name r = a \<and> y > x then 1 else 0) + (if name r = b \<and> x > y then 1 else 0),
       GF := GF r + (if name r = a then x else 0) + (if name r = b then y else 0),
       GA := GA r + (if name r = a then y else 0) + (if name r = b then x else 0)\<rparr>"

text \<open>
  Notions for the schedule. The working array of a roster; the pairings of one round
  read off an array; the array index that, after \<open>r\<close> rotations of an array of
  length \<open>n\<close>, sits at position \<open>j\<close> (\<open>src\<close>), and the position at which the
  element of index \<open>p\<close> then sits (\<open>pos\<close>).
\<close>

definition working_list :: "competitor list \<Rightarrow> slot list" where
  "working_list teams = map Team teams @ (if length teams mod 2 = 1 then [BYE] else [])"

definition round_pairs :: "slot list \<Rightarrow> (string \<times> string) list" where
  "round_pairs t =
     map (\<lambda>i. (slot_name (t ! i), slot_name (t ! (length t - 1 - i))))
       (filter (\<lambda>i. \<not> is_bye (t ! i) \<and> \<not> is_bye (t ! (length t - 1 - i)))
          [0..<length t div 2])"

definition src :: "nat \<Rightarrow> nat \<Rightarrow> nat \<Rightarrow> nat" where
  "src n r j = (if j = 0 then 0 else Suc ((j - 1 + r * (n - 2)) mod (n - 1)))"

definition pos :: "nat \<Rightarrow> nat \<Rightarrow> nat \<Rightarrow> nat" where
  "pos n r p = (if p = 0 then 0 else Suc ((p - 1 + r) mod (n - 1)))"

text \<open>
  The number of the pair of a round in which the element of index \<open>p\<close> plays: pair
  \<open>i\<close> joins the positions \<open>i\<close> and \<open>n - 1 - i\<close>.
\<close>

definition pair_of :: "nat \<Rightarrow> nat \<Rightarrow> nat \<Rightarrow> nat" where
  "pair_of n r p = min (pos n r p) (n - 1 - pos n r p)"

section \<open>Seeder: partition and snake rule\<close>

lemma snake_to_A_iff: "snake_to_A idx \<longleftrightarrow> ((idx div 2) mod 2 = 0) = (idx mod 2 = 0)"
  unfolding snake_to_A_def Let_def by presburger

lemma snake_to_A_mod4: "snake_to_A idx \<longleftrightarrow> idx mod 4 = 0 \<or> idx mod 4 = 3"
  unfolding snake_to_A_def Let_def by presburger

lemma by_index_Nil [simp]: "by_index P idx [] = []"
  by (simp add: by_index_def)

lemma by_index_Cons [simp]:
  "by_index P idx (x # xs) = (if P idx then x # by_index P (Suc idx) xs else by_index P (Suc idx) xs)"
  by (simp add: by_index_def)

lemma splitSnake_loop_eq:
  "splitSnake_loop ps idx A B =
     (A @ by_index snake_to_A idx (ranked_from idx ps),
      B @ by_index (\<lambda>i. \<not> snake_to_A i) idx (ranked_from idx ps))"
proof (induction ps arbitrary: idx A B)
  case Nil
  then show ?case by simp
next
  case (Cons p ps)
  show ?case
    by (simp add: Cons.IH snake_to_A_iff Let_def)
qed

lemma splitHalf_loop_eq:
  "splitHalf_loop ps half idx A B =
     (A @ by_index (\<lambda>i. i < half) idx (ranked_from idx ps),
      B @ by_index (\<lambda>i. \<not> i < half) idx (ranked_from idx ps))"
proof (induction ps arbitrary: idx A B)
  case Nil
  then show ?case by simp
next
  case (Cons p ps)
  show ?case
    by (simp add: Cons.IH Let_def)
qed

lemma length_ranked_from [simp]: "length (ranked_from idx ps) = length ps"
  by (induction ps arbitrary: idx) auto

lemma nth_ranked_from:
  "i < length ps \<Longrightarrow> ranked_from idx ps ! i = (ps ! i)\<lparr>rank := int (idx + i) + 1\<rparr>"
proof (induction ps arbitrary: idx i)
  case Nil
  then show ?case by simp
next
  case (Cons p ps)
  then show ?case by (cases i) auto
qed

lemma mset_by_index:
  "mset (by_index P idx xs) + mset (by_index (\<lambda>i. \<not> P i) idx xs) = mset xs"
  by (induction xs arbitrary: idx) auto

lemma length_by_index:
  "length (by_index P idx xs) = length (filter P [idx..<idx + length xs])"
proof (induction xs arbitrary: idx)
  case Nil
  then show ?case by simp
next
  case (Cons x xs)
  have "[idx..<idx + length (x # xs)] = idx # [Suc idx..<Suc idx + length xs]"
    by (simp add: upt_rec)
  then show ?case using Cons.IH [of "Suc idx"] by simp
qed

lemma rank_ranked_from:
  "map rank (ranked_from idx ps) = map (\<lambda>i. int i + 1) [idx..<idx + length ps]"
proof (induction ps arbitrary: idx)
  case Nil
  then show ?case by simp
next
  case (Cons p ps)
  have "[idx..<idx + length (p # ps)] = idx # [Suc idx..<Suc idx + length ps]"
    by (simp add: upt_rec)
  then show ?case using Cons.IH [of "Suc idx"] by simp
qed

lemma distinct_ranked_from: "distinct (ranked_from idx ps)"
proof -
  have "distinct (map (\<lambda>i. int i + 1) [idx..<idx + length ps])"
    by (simp add: distinct_map inj_on_def)
  then have "distinct (map rank (ranked_from idx ps))"
    by (simp add: rank_ranked_from)
  then show ?thesis by (simp add: distinct_map)
qed

lemma snake_counts_mod4:
  "(n mod 4 = 0 \<longrightarrow> length (filter snake_to_A [0..<n]) = length (filter (\<lambda>i. \<not> snake_to_A i) [0..<n])) \<and>
   (n mod 4 = 1 \<longrightarrow> length (filter snake_to_A [0..<n]) = length (filter (\<lambda>i. \<not> snake_to_A i) [0..<n]) + 1) \<and>
   (n mod 4 = 2 \<longrightarrow> length (filter snake_to_A [0..<n]) = length (filter (\<lambda>i. \<not> snake_to_A i) [0..<n])) \<and>
   (n mod 4 = 3 \<longrightarrow> length (filter snake_to_A [0..<n]) + 1 = length (filter (\<lambda>i. \<not> snake_to_A i) [0..<n]))"
proof (induction n)
  case 0
  then show ?case by simp
next
  case (Suc n)
  consider "n mod 4 = 0" | "n mod 4 = 1" | "n mod 4 = 2" | "n mod 4 = 3" by linarith
  then show ?case
  proof cases
    case 1
    then have "Suc n mod 4 = 1" by (simp add: mod_Suc)
    with 1 Suc.IH show ?thesis by (simp add: snake_to_A_mod4)
  next
    case 2
    then have "Suc n mod 4 = 2" by (simp add: mod_Suc)
    with 2 Suc.IH show ?thesis by (simp add: snake_to_A_mod4)
  next
    case 3
    then have "Suc n mod 4 = 3" by (simp add: mod_Suc)
    with 3 Suc.IH show ?thesis by (simp add: snake_to_A_mod4)
  next
    case 4
    then have "Suc n mod 4 = 0" by (simp add: mod_Suc)
    with 4 Suc.IH show ?thesis by (simp add: snake_to_A_mod4)
  qed
qed

lemma snake_counts:
  "let a = length (filter snake_to_A [0..<n]);
       b = length (filter (\<lambda>i. \<not> snake_to_A i) [0..<n])
   in a = b \<or> a = b + 1 \<or> b = a + 1"
proof -
  consider "n mod 4 = 0" | "n mod 4 = 1" | "n mod 4 = 2" | "n mod 4 = 3" by linarith
  then show ?thesis
    using snake_counts_mod4 [of n] by cases (simp_all add: Let_def)
qed

lemma filter_less_upt: "k \<le> n \<Longrightarrow> filter (\<lambda>i. i < k) [0..<n] = [0..<k]"
proof (induction n)
  case 0
  then show ?case by simp
next
  case (Suc n)
  show ?case
  proof (cases "k = Suc n")
    case True
    then show ?thesis by simp
  next
    case False
    with Suc show ?thesis by simp
  qed
qed

lemma half_counts:
  "length (filter (\<lambda>i. i < (n + 1) div 2) [0..<n]) = (n + 1) div 2"
  "length (filter (\<lambda>i. \<not> i < (n + 1) div 2) [0..<n]) = n - (n + 1) div 2"
proof -
  have le: "(n + 1) div 2 \<le> n" by presburger
  show a: "length (filter (\<lambda>i. i < (n + 1) div 2) [0..<n]) = (n + 1) div 2"
    using filter_less_upt [OF le] by simp
  have "length (filter (\<lambda>i. i < (n + 1) div 2) [0..<n])
        + length (filter (\<lambda>i. \<not> i < (n + 1) div 2) [0..<n]) = length [0..<n]"
    by (rule sum_length_filter_compl)
  with a show "length (filter (\<lambda>i. \<not> i < (n + 1) div 2) [0..<n]) = n - (n + 1) div 2"
    by simp
qed

lemma split_by_index:
  "\<exists>P. splitGroups list algo =
         (by_index P 0 (ranked list), by_index (\<lambda>i. \<not> P i) 0 (ranked list)) \<and>
       (let a = length (filter P [0..<length list]);
            b = length (filter (\<lambda>i. \<not> P i) [0..<length list])
        in a = b \<or> a = b + 1 \<or> b = a + 1)"
proof (cases "algo = ''had''")
  case True
  have "splitGroups list algo =
         (by_index snake_to_A 0 (ranked list), by_index (\<lambda>i. \<not> snake_to_A i) 0 (ranked list))"
    using True by (simp add: splitGroups_def splitSnake_def splitSnake_loop_eq ranked_def)
  moreover have "let a = length (filter snake_to_A [0..<length list]);
            b = length (filter (\<lambda>i. \<not> snake_to_A i) [0..<length list])
        in a = b \<or> a = b + 1 \<or> b = a + 1"
    by (rule snake_counts)
  ultimately show ?thesis by blast
next
  case False
  let ?P = "\<lambda>i. i < (length list + 1) div 2"
  have "splitGroups list algo =
         (by_index ?P 0 (ranked list), by_index (\<lambda>i. \<not> ?P i) 0 (ranked list))"
    using False by (simp add: splitGroups_def splitHalf_loop_eq ranked_def Let_def)
  moreover have "let a = length (filter ?P [0..<length list]);
            b = length (filter (\<lambda>i. \<not> ?P i) [0..<length list])
        in a = b \<or> a = b + 1 \<or> b = a + 1"
    unfolding Let_def half_counts by presburger
  ultimately show ?thesis by blast
qed

text \<open>
  C4. For every master ranking and either seeding policy (\<^verbatim>\<open>'had'\<close>, the snake, and
  any other algorithm name, the split in halves), the two groups are a strict partition
  of the ranking with its ranks renumbered: together they hold exactly the renumbered
  entries, no entry is in both, the two lengths add up to the length of the ranking and
  differ by at most one, and the renumbered entry at position \<open>i\<close> is the entry of the
  ranking with \<^verbatim>\<open>rank\<close> set to \<open>i + 1\<close>.
\<close>

theorem seeder_partition:
  "case splitGroups list algo of (A, B) \<Rightarrow>
     mset A + mset B = mset (ranked list) \<and>
     set A \<inter> set B = {} \<and>
     length A + length B = length list \<and>
     (length A = length B \<or> length A = length B + 1 \<or> length B = length A + 1) \<and>
     length (ranked list) = length list \<and>
     (\<forall>i < length list. ranked list ! i = (list ! i)\<lparr>rank := int i + 1\<rparr>)"
proof -
  obtain P where sg: "splitGroups list algo =
         (by_index P 0 (ranked list), by_index (\<lambda>i. \<not> P i) 0 (ranked list))"
    and sz: "let a = length (filter P [0..<length list]);
            b = length (filter (\<lambda>i. \<not> P i) [0..<length list])
        in a = b \<or> a = b + 1 \<or> b = a + 1"
    using split_by_index by blast
  let ?A = "by_index P 0 (ranked list)" and ?B = "by_index (\<lambda>i. \<not> P i) 0 (ranked list)"
  have m: "mset ?A + mset ?B = mset (ranked list)" by (rule mset_by_index)
  have "distinct (ranked list)" by (simp add: ranked_def distinct_ranked_from)
  moreover have m2: "mset (?A @ ?B) = mset (ranked list)" using m by simp
  ultimately have "distinct (?A @ ?B)"
    using mset_eq_imp_distinct_iff by blast
  then have d: "set ?A \<inter> set ?B = {}" by simp
  have "length (?A @ ?B) = length (ranked list)"
    using m2 by (rule mset_eq_length)
  then have l: "length ?A + length ?B = length list"
    by (simp add: ranked_def)
  have la: "length ?A = length (filter P [0..<length list])"
    and lb: "length ?B = length (filter (\<lambda>i. \<not> P i) [0..<length list])"
    by (simp_all add: length_by_index ranked_def)
  have s: "length ?A = length ?B \<or> length ?A = length ?B + 1 \<or> length ?B = length ?A + 1"
    using sz unfolding la lb Let_def .
  have r: "\<forall>i < length list. ranked list ! i = (list ! i)\<lparr>rank := int i + 1\<rparr>"
    by (simp add: ranked_def nth_ranked_from)
  show ?thesis
    unfolding sg using m d l s r by (simp add: ranked_def)
qed

theorem seeder_partition_witness:
  "splitGroups [\<lparr>name = ''P'', rank = 7\<rparr>, \<lparr>name = ''Q'', rank = 7\<rparr>, \<lparr>name = ''R'', rank = 1\<rparr>]
       ''prumer'' =
     ([\<lparr>name = ''P'', rank = 1\<rparr>, \<lparr>name = ''Q'', rank = 2\<rparr>], [\<lparr>name = ''R'', rank = 3\<rparr>]) \<and>
   (case splitGroups [\<lparr>name = ''P'', rank = 7\<rparr>, \<lparr>name = ''Q'', rank = 7\<rparr>, \<lparr>name = ''R'', rank = 1\<rparr>]
       ''prumer'' of
      (A, B) \<Rightarrow> mset A + mset B =
          mset (ranked [\<lparr>name = ''P'', rank = 7\<rparr>, \<lparr>name = ''Q'', rank = 7\<rparr>, \<lparr>name = ''R'', rank = 1\<rparr>]) \<and>
        set A \<inter> set B = {} \<and> length A + length B = 3 \<and> length A = length B + 1)"
  using seeder_partition
    [of "[\<lparr>name = ''P'', rank = 7\<rparr>, \<lparr>name = ''Q'', rank = 7\<rparr>, \<lparr>name = ''R'', rank = 1\<rparr>]" "''prumer''"]
  by (simp add: splitGroups_def ranked_def)

text \<open>
  C5. The snake policy assigns by consecutive pairs of positions: \<^verbatim>\<open>splitSnake\<close> sends
  to group A exactly the renumbered entries at the lower position of each pair with an
  even pair index and at the higher position of each pair with an odd pair index, and
  every other entry to group B, both in ranking order. This covers a ranking of odd
  length, whose last pair has its lower position only.
\<close>

theorem snake_rule:
  "splitSnake list =
     (map snd (filter (\<lambda>(i, p). snake_to_A i) (enumerate 0 (ranked list))),
      map snd (filter (\<lambda>(i, p). \<not> snake_to_A i) (enumerate 0 (ranked list))))"
  by (simp add: splitSnake_def splitSnake_loop_eq by_index_def ranked_def)

theorem snake_rule_witness:
  "splitSnake [\<lparr>name = ''P'', rank = 0\<rparr>, \<lparr>name = ''Q'', rank = 0\<rparr>, \<lparr>name = ''R'', rank = 0\<rparr>,
               \<lparr>name = ''S'', rank = 0\<rparr>, \<lparr>name = ''T'', rank = 0\<rparr>] =
     ([\<lparr>name = ''P'', rank = 1\<rparr>, \<lparr>name = ''S'', rank = 4\<rparr>, \<lparr>name = ''T'', rank = 5\<rparr>],
      [\<lparr>name = ''Q'', rank = 2\<rparr>, \<lparr>name = ''R'', rank = 3\<rparr>])"
  using snake_rule
    [of "[\<lparr>name = ''P'', rank = 0\<rparr>, \<lparr>name = ''Q'', rank = 0\<rparr>, \<lparr>name = ''R'', rank = 0\<rparr>,
          \<lparr>name = ''S'', rank = 0\<rparr>, \<lparr>name = ''T'', rank = 0\<rparr>]"]
  by (simp add: ranked_def enumerate_eq_zip upt_rec snake_to_A_def)

section \<open>Bracket projector\<close>




section \<open>Import\<close>

lemma truthy_defined: "truthy v \<Longrightarrow> v \<noteq> None"
  by (cases v) auto

lemma get_prop_truthy_has_key:
  assumes "get_prop parsed k = Inr v" and "truthy v"
  shows "has_key parsed k"
proof (cases parsed)
  case (JObj kvs)
  with assms have "map_of kvs k \<noteq> None" using truthy_defined by auto
  then have "k \<in> fst ` set kvs" by (simp add: map_of_eq_None_iff)
  with JObj show ?thesis by simp
qed (use assms in auto)

lemma onImport_checks_keys:
  "onImport (Parsed parsed) state = (parsed, None) \<and> has_key parsed ''A'' \<and> has_key parsed ''B''
   \<or> onImport (Parsed parsed) state = (state, Some BadFormat)
   \<or> onImport (Parsed parsed) state = (state, Some CannotLoad)"
  unfolding onImport_def
  by (auto split: sum.splits dest: get_prop_truthy_has_key)

lemma onImport_rejects_without_keys:
  assumes "\<not> (has_key parsed ''A'' \<and> has_key parsed ''B'')"
  shows "fst (onImport (Parsed parsed) state) = state \<and> snd (onImport (Parsed parsed) state) \<noteq> None"
  using assms onImport_checks_keys [of parsed state] by auto

text \<open>
  C9. The claim: an imported object is accepted only when it has both keys.
  \<^verbatim>\<open>onImport\<close> of \<^verbatim>\<open>src/App.jsx\<close> stores whatever parses: the object with the key
  \<^verbatim>\<open>A\<close> alone replaces a result state that had both keys, and no notice is shown.
\<close>

theorem onImport_App_accepts_missing_key:
  "\<not> has_key (JObj [(''A'', JObj [])]) ''B'' \<and>
   onImport_App (Parsed (JObj [(''A'', JObj [])])) (JObj [(''A'', JObj []), (''B'', JObj [])]) =
     (JObj [(''A'', JObj [])], None) \<and>
   onImport (Parsed (JObj [(''A'', JObj [])])) (JObj [(''A'', JObj []), (''B'', JObj [])]) =
     (JObj [(''A'', JObj []), (''B'', JObj [])], Some BadFormat)"
  by (simp add: onImport_App_def onImport_def)

section \<open>Standings: the name index\<close>

lemma fold_update_map_of:
  "fold (\<lambda>(k, v) m. m(k \<mapsto> v)) es m0 = m0 ++ map_of (rev es)"
proof (induction es arbitrary: m0)
  case Nil
  then show ?case by simp
next
  case (Cons e es)
  obtain k v where e: "e = (k, v)" by (cases e)
  have "fold (\<lambda>(k, v) m. m(k \<mapsto> v)) (e # es) m0 = fold (\<lambda>(k, v) m. m(k \<mapsto> v)) es (m0(k \<mapsto> v))"
    unfolding e by (simp only: fold_simps prod.case)
  also have "\<dots> = m0(k \<mapsto> v) ++ map_of (rev es)"
    by (rule Cons.IH)
  also have "m0(k \<mapsto> v) = m0 ++ map_of [(k, v)]"
    by simp
  also have "(m0 ++ map_of [(k, v)]) ++ map_of (rev es) = m0 ++ (map_of [(k, v)] ++ map_of (rev es))"
    by (simp only: map_add_assoc)
  also have "map_of [(k, v)] ++ map_of (rev es) = map_of (rev (e # es))"
    unfolding e by (simp only: rev.simps map_of_append)
  finally show ?case .
qed

lemma fromEntries_map_of: "fromEntries es = map_of (rev es)"
  by (simp add: fromEntries_def fold_update_map_of)

lemma index_of_SomeD:
  assumes "index_of table nm = Some i"
  shows "i < length table \<and> name (table ! i) = nm"
proof -
  from assms have "(nm, i) \<in> set (zip (map name table) [0..<length table])"
    unfolding index_of_def fromEntries_map_of by (auto dest: map_of_SomeD)
  then show ?thesis by (auto simp: in_set_zip)
qed

lemma index_of_None_iff: "index_of table nm = None \<longleftrightarrow> nm \<notin> set (map name table)"
proof -
  have "map fst (zip (map name table) [0..<length table]) = map name table"
    by (simp add: map_fst_zip)
  then have "fst ` set (zip (map name table) [0..<length table]) = set (map name table)"
    by (metis set_map)
  then show ?thesis
    unfolding index_of_def fromEntries_map_of by (simp add: map_of_eq_None_iff)
qed


lemma index_of_distinct:
  assumes "distinct (map name table)" and "index_of table nm = Some i"
    and "j < length table" and "name (table ! j) = nm"
  shows "j = i"
proof -
  from index_of_SomeD [OF assms(2)] have "i < length table" "name (table ! i) = nm" by auto
  with assms(3,4) have "map name table ! i = map name table ! j" by simp
  moreover have "i < length (map name table)" "j < length (map name table)"
    using \<open>i < length table\<close> assms(3) by simp_all
  ultimately show ?thesis
    using nth_eq_iff_index_eq [OF assms(1), of i j] by blast
qed

section \<open>Standings: one result\<close>

lemma length_upd_row [simp]: "length (upd_row table i f) = length table"
  by (simp add: upd_row_def)

lemma nth_upd_row:
  "j < length table \<Longrightarrow> upd_row table i f ! j = (if j = i then f (table ! j) else table ! j)"
  by (simp add: upd_row_def nth_list_update)

lemma length_add_score [simp]: "length (add_score table A B x y) = length table"
  by (simp add: add_score_def Let_def)



lemma name_credit [simp]: "name (credit r g) = name r"
  by (cases g) simp

lemma rank_credit [simp]: "rank (credit r g) = rank r"
  by (cases g) simp


section \<open>Standings: all results\<close>


lemma name_foldl_credit [simp]: "name (foldl credit r gs) = name r"
  by (induction gs arbitrary: r) simp_all

lemma rank_foldl_credit [simp]: "rank (foldl credit r gs) = rank r"
  by (induction gs arbitrary: r) simp_all


lemma stats_Nil [simp]:
  "wins_of nm [] = 0" "losses_of nm [] = 0" "games_for nm [] = 0" "games_against nm [] = 0"
  by (simp_all add: wins_of_def losses_of_def games_for_def games_against_def)



section \<open>Standings: the sort\<close>

lemma mset_insert_by [simp]: "mset (insert_by cmp x ys) = add_mset x (mset ys)"
  by (induction ys) auto

lemma mset_sort_by [simp]: "mset (sort_by cmp xs) = mset xs"
  unfolding sort_by_def by (induction xs) auto

lemma set_sort_by [simp]: "set (sort_by cmp xs) = set xs"
  by (metis mset_sort_by set_mset_mset)

lemma length_sort_by [simp]: "length (sort_by cmp xs) = length xs"
  by (metis mset_sort_by size_mset)

lemma sorted_insert_by:
  assumes total: "\<And>x y. cmp x y \<le> 0 \<or> cmp y x \<le> 0"
    and trans: "\<And>x y z. cmp x y \<le> 0 \<Longrightarrow> cmp y z \<le> 0 \<Longrightarrow> cmp x z \<le> 0"
    and "sorted_wrt (\<lambda>x y. cmp x y \<le> 0) ys"
  shows "sorted_wrt (\<lambda>x y. cmp x y \<le> 0) (insert_by cmp x ys)"
  using assms(3)
proof (induction ys)
  case Nil
  then show ?case by simp
next
  case (Cons y ys)
  show ?case
  proof (cases "cmp x y \<le> 0")
    case True
    then have "\<forall>z\<in>set ys. cmp x z \<le> 0"
      using Cons.prems trans by auto
    with True Cons.prems show ?thesis by simp
  next
    case False
    then have yx: "cmp y x \<le> 0" using total by blast
    have "set (insert_by cmp x ys) = insert x (set ys)"
      by (metis mset_insert_by set_mset_add_mset_insert set_mset_mset)
    with False yx Cons show ?thesis by simp
  qed
qed

lemma sorted_sort_by:
  assumes "\<And>x y. cmp x y \<le> 0 \<or> cmp y x \<le> 0"
    and "\<And>x y z. cmp x y \<le> 0 \<Longrightarrow> cmp y z \<le> 0 \<Longrightarrow> cmp x z \<le> 0"
  shows "sorted_wrt (\<lambda>x y. cmp x y \<le> 0) (sort_by cmp xs)"
  unfolding sort_by_def
  by (induction xs) (simp_all add: sorted_insert_by [OF assms])

lemma compare_rows_total: "compare_rows x y \<le> 0 \<or> compare_rows y x \<le> 0"
  unfolding compare_rows_def by (simp; linarith)

lemma compare_rows_neg: "compare_rows x y < 0 \<longleftrightarrow> ranks_above x y"
  unfolding compare_rows_def ranks_above_def by (simp; linarith)

lemma compare_rows_zero: "compare_rows x y = 0 \<longleftrightarrow> W x = W y \<and> GD x = GD y \<and> GF x = GF y \<and> rank x = rank y"
  unfolding compare_rows_def by (simp; linarith)

lemma ranks_above_trans: "ranks_above x y \<Longrightarrow> ranks_above y z \<Longrightarrow> ranks_above x z"
  unfolding ranks_above_def by linarith

lemma compare_rows_le:
  "compare_rows x y \<le> 0 \<longleftrightarrow>
     ranks_above x y \<or> (W x = W y \<and> GD x = GD y \<and> GF x = GF y \<and> rank x = rank y)"
  using compare_rows_neg [of x y] compare_rows_zero [of x y] by linarith

lemma compare_rows_trans:
  assumes "compare_rows x y \<le> 0" and "compare_rows y z \<le> 0"
  shows "compare_rows x z \<le> 0"
proof -
  from assms have
    "ranks_above x y \<or> (W x = W y \<and> GD x = GD y \<and> GF x = GF y \<and> rank x = rank y)"
    "ranks_above y z \<or> (W y = W z \<and> GD y = GD z \<and> GF y = GF z \<and> rank y = rank z)"
    by (simp_all add: compare_rows_le)
  then have "ranks_above x z \<or> (W x = W z \<and> GD x = GD z \<and> GF x = GF z \<and> rank x = rank z)"
    unfolding ranks_above_def by linarith
  then show ?thesis by (simp add: compare_rows_le)
qed

lemma sorted_compare_rows: "sorted_wrt (\<lambda>x y. compare_rows x y \<le> 0) (sort_by compare_rows xs)"
  by (rule sorted_sort_by [OF compare_rows_total compare_rows_trans])

lemma strictly_sorted:
  assumes "sorted_wrt (\<lambda>x y. compare_rows x y \<le> 0) xs" and "distinct (map rank xs)"
  shows "sorted_wrt ranks_above xs"
  using assms
proof (induction xs)
  case Nil
  then show ?case by simp
next
  case (Cons x xs)
  have "ranks_above x y" if "y \<in> set xs" for y
  proof -
    from that Cons.prems have "compare_rows x y \<le> 0" and "rank x \<noteq> rank y" by auto
    then show ?thesis using compare_rows_le [of x y] by simp
  qed
  with Cons show ?case by simp
qed

section \<open>Standings: names and ranks stay\<close>

lemma map_upd_row:
  assumes "\<And>r. h (f r) = h r"
  shows "map h (upd_row table i f) = map h table"
proof (rule nth_equalityI)
  show "length (map h (upd_row table i f)) = length (map h table)" by simp
next
  fix j assume "j < length (map h (upd_row table i f))"
  then have "j < length table" by simp
  then show "map h (upd_row table i f) ! j = map h table ! j"
    by (simp add: nth_upd_row assms)
qed

lemma rank_add_score: "map rank (add_score table A B x y) = map rank table"
  unfolding add_score_def Let_def by (simp add: map_upd_row)

lemma rank_tally: "map rank (tally num index table mo) = map rank table"
  unfolding tally_def by (simp add: rank_add_score split: option.splits)

lemma rank_forEach_tally: "map rank (forEach_tally num index table rs) = map rank table"
  by (induction rs arbitrary: table) (simp_all add: rank_tally)

lemma rank_initial_table: "map rank (initial_table players) = map rank players"
  by (simp add: initial_table_def comp_def)

lemma name_initial_table: "map name (initial_table players) = map name players"
  by (simp add: initial_table_def comp_def)

lemma ranks_calcStandings:
  "mset (map rank (calcStandings num players results)) = mset (map rank players)"
proof -
  let ?T = "forEach_tally num (index_of (initial_table players)) (initial_table players)
              (Object_values results)"
  have "map rank (map (\<lambda>r. r\<lparr>GD := GF r - GA r\<rparr>) ?T) = map rank ?T"
    by (simp add: comp_def)
  then have "map rank (map (\<lambda>r. r\<lparr>GD := GF r - GA r\<rparr>) ?T) = map rank players"
    by (simp only: rank_forEach_tally rank_initial_table)
  moreover have "mset (map rank (calcStandings num players results)) =
        mset (map rank (map (\<lambda>r. r\<lparr>GD := GF r - GA r\<rparr>) ?T))"
    unfolding calcStandings_def Let_def mset_map mset_sort_by ..
  ultimately show ?thesis by simp
qed



section \<open>Standings: the version without the guard\<close>

lemma tally_App_agrees:
  assumes "\<And>m. mo = Some m \<Longrightarrow> recorded num m \<noteq> None \<Longrightarrow>
             index (res_a m) \<noteq> None \<and> index (res_b m) \<noteq> None"
  shows "tally_App num index table mo = Inr (tally num index table mo)"
proof (cases mo)
  case None
  then show ?thesis by (simp add: tally_App_def tally_def)
next
  case (Some m)
  show ?thesis
  proof (cases "recorded num m")
    case None
    with Some show ?thesis by (simp add: tally_App_def tally_def split: option.splits)
  next
    case (Some s)
    with assms [OF \<open>mo = Some m\<close>] obtain A B
      where "index (res_a m) = Some A" "index (res_b m) = Some B" by auto
    with Some \<open>mo = Some m\<close> show ?thesis
      by (simp add: tally_App_def tally_def split: prod.splits)
  qed
qed

lemma forEach_tally_App_agrees:
  assumes "\<And>m. Some m \<in> set rs \<Longrightarrow> recorded num m \<noteq> None \<Longrightarrow>
             index (res_a m) \<noteq> None \<and> index (res_b m) \<noteq> None"
  shows "forEach_tally_App num index table rs = Inr (forEach_tally num index table rs)"
  using assms
proof (induction rs arbitrary: table)
  case Nil
  then show ?case by simp
next
  case (Cons mo rs)
  have "tally_App num index table mo = Inr (tally num index table mo)"
    by (rule tally_App_agrees) (use Cons.prems in auto)
  moreover have "forEach_tally_App num index (tally num index table mo) rs =
                 Inr (forEach_tally num index (tally num index table mo) rs)"
    by (rule Cons.IH) (use Cons.prems in auto)
  ultimately show ?case by simp
qed

lemma calcStandings_App_agrees:
  assumes "\<And>m. Some m \<in> set (Object_values results) \<Longrightarrow> recorded num m \<noteq> None \<Longrightarrow>
             res_a m \<in> set (map name players) \<and> res_b m \<in> set (map name players)"
  shows "calcStandings_App num players results = Inr (calcStandings num players results)"
proof -
  have "forEach_tally_App num (index_of (initial_table players)) (initial_table players)
          (Object_values results) =
        Inr (forEach_tally num (index_of (initial_table players)) (initial_table players)
          (Object_values results))"
  proof (rule forEach_tally_App_agrees)
    fix m assume "Some m \<in> set (Object_values results)" "recorded num m \<noteq> None"
    from assms [OF this]
    show "index_of (initial_table players) (res_a m) \<noteq> None \<and>
          index_of (initial_table players) (res_b m) \<noteq> None"
      by (simp add: index_of_None_iff name_initial_table)
  qed
  then show ?thesis by (simp add: calcStandings_App_def calcStandings_def Let_def)
qed

lemma tally_skips_stale:
  assumes "res_a m \<notin> set (map name table) \<or> res_b m \<notin> set (map name table)"
  shows "tally num (index_of table) table' (Some m) = table'"
proof -
  from assms have "index_of table (res_a m) = None \<or> index_of table (res_b m) = None"
    by (simp add: index_of_None_iff)
  then show ?thesis
    unfolding tally_def by (cases "index_of table (res_a m)") auto
qed

lemma forEach_tally_append:
  "forEach_tally num index table (rs @ rs') =
     forEach_tally num index (forEach_tally num index table rs) rs'"
  by (induction rs arbitrary: table) simp_all

lemma calcStandings_skips_stale:
  assumes "res_a m \<notin> set (map name players) \<or> res_b m \<notin> set (map name players)"
  shows "calcStandings num players (before @ (key, Some m) # after) =
         calcStandings num players (before @ after)"
proof -
  have "tally num (index_of (initial_table players)) table' (Some m) = table'" for table'
    by (rule tally_skips_stale) (use assms in \<open>simp add: name_initial_table\<close>)
  then show ?thesis
    by (simp add: calcStandings_def Let_def Object_values_def forEach_tally_append)
qed

section \<open>Standings: the claims\<close>



text \<open>
  C3. The table of \<^verbatim>\<open>calcStandings\<close> is sorted by the comparator, and the comparator is
  the tie-break chain: it puts \<open>x\<close> strictly first exactly when \<open>x\<close> has more wins, or
  equal wins and the better game difference, or both equal and more games for, or all
  three equal and the lower seed rank. The chain is irreflexive and transitive, and it
  decides every pair of rows with different seed ranks, so with unique seed ranks the
  table is strictly ordered by it. A row with equal wins and game difference and more
  games for comes first whatever the seed ranks are.
\<close>

theorem standings_sorted:
  "sorted_wrt (\<lambda>x y. compare_rows x y \<le> 0) (calcStandings num players results) \<and>
   (\<forall>x y. compare_rows x y < 0 \<longleftrightarrow> ranks_above x y) \<and>
   (\<forall>x. \<not> ranks_above x x) \<and>
   (\<forall>x y z. ranks_above x y \<longrightarrow> ranks_above y z \<longrightarrow> ranks_above x z) \<and>
   (\<forall>x y. rank x \<noteq> rank y \<longrightarrow> ranks_above x y \<or> ranks_above y x) \<and>
   (distinct (map rank players) \<longrightarrow>
      sorted_wrt ranks_above (calcStandings num players results)) \<and>
   (\<forall>x y. W x = W y \<and> GD x = GD y \<and> GF x > GF y \<longrightarrow> ranks_above x y)"
proof (intro conjI allI impI)
  show s: "sorted_wrt (\<lambda>x y. compare_rows x y \<le> 0) (calcStandings num players results)"
    unfolding calcStandings_def Let_def by (rule sorted_compare_rows)
  show "compare_rows x y < 0 \<longleftrightarrow> ranks_above x y" for x y
    by (rule compare_rows_neg)
  show "\<not> ranks_above x x" for x
    by (simp add: ranks_above_def)
  show "ranks_above x z" if "ranks_above x y" "ranks_above y z" for x y z
    using that by (rule ranks_above_trans)
  show "ranks_above x y \<or> ranks_above y x" if "rank x \<noteq> rank y" for x y
    using that unfolding ranks_above_def by linarith
  show "sorted_wrt ranks_above (calcStandings num players results)"
    if "distinct (map rank players)"
  proof (rule strictly_sorted [OF s])
    show "distinct (map rank (calcStandings num players results))"
      using that ranks_calcStandings [of num players results] mset_eq_imp_distinct_iff by blast
  qed
  show "ranks_above x y" if "W x = W y \<and> GD x = GD y \<and> GF x > GF y" for x y
    using that by (simp add: ranks_above_def)
qed

lemma Number_decimal_examples:
  "Number_decimal ''2'' = Some 2" "Number_decimal ''3'' = Some 3"
  "Number_decimal ''4'' = Some 4" "Number_decimal ''5'' = Some 5"
  by (simp_all add: Number_decimal_def is_digit_def)

lemma index_of_three:
  "index_of (initial_table [\<lparr>name = ''P'', rank = 1\<rparr>, \<lparr>name = ''Q'', rank = 3\<rparr>,
                            \<lparr>name = ''R'', rank = 2\<rparr>]) =
     [''P'' \<mapsto> 0, ''Q'' \<mapsto> 1, ''R'' \<mapsto> 2]"
  by (simp add: index_of_def initial_table_def fromEntries_def upt_rec numeral_2_eq_2)

lemma standings_three:
  "calcStandings Number_decimal
     [\<lparr>name = ''P'', rank = 1\<rparr>, \<lparr>name = ''Q'', rank = 3\<rparr>, \<lparr>name = ''R'', rank = 2\<rparr>]
     [(''A::P__R'', Some \<lparr>res_a = ''P'', res_b = ''R'', res_round = 1, ag = ''4'', bg = ''2''\<rparr>),
      (''A::Q__R'', Some \<lparr>res_a = ''Q'', res_b = ''R'', res_round = 2, ag = ''5'', bg = ''3''\<rparr>)] =
     [\<lparr>name = ''Q'', rank = 3, W = 1, L = 0, GF = 5, GA = 3, GD = 2\<rparr>,
      \<lparr>name = ''P'', rank = 1, W = 1, L = 0, GF = 4, GA = 2, GD = 2\<rparr>,
      \<lparr>name = ''R'', rank = 2, W = 0, L = 2, GF = 5, GA = 9, GD = - 4\<rparr>]"
  unfolding calcStandings_def Let_def index_of_three
  by (simp add: Object_values_def tally_def recorded_def add_score_def upd_row_def
      initial_table_def sort_by_def compare_rows_def Number_decimal_examples)

theorem standings_sorted_witness:
  "distinct (map rank [\<lparr>name = ''P'', rank = 1\<rparr>, \<lparr>name = ''Q'', rank = 3\<rparr>, \<lparr>name = ''R'', rank = 2\<rparr>]) \<and>
   sorted_wrt ranks_above
     [\<lparr>name = ''Q'', rank = 3, W = 1, L = 0, GF = 5, GA = 3, GD = 2\<rparr>,
      \<lparr>name = ''P'', rank = 1, W = 1, L = 0, GF = 4, GA = 2, GD = 2\<rparr>,
      \<lparr>name = ''R'', rank = 2, W = 0, L = 2, GF = 5, GA = 9, GD = - 4\<rparr>] \<and>
   calcStandings Number_decimal
     [\<lparr>name = ''P'', rank = 1\<rparr>, \<lparr>name = ''Q'', rank = 3\<rparr>, \<lparr>name = ''R'', rank = 2\<rparr>]
     [(''A::P__R'', Some \<lparr>res_a = ''P'', res_b = ''R'', res_round = 1, ag = ''4'', bg = ''2''\<rparr>),
      (''A::Q__R'', Some \<lparr>res_a = ''Q'', res_b = ''R'', res_round = 2, ag = ''5'', bg = ''3''\<rparr>)] =
     [\<lparr>name = ''Q'', rank = 3, W = 1, L = 0, GF = 5, GA = 3, GD = 2\<rparr>,
      \<lparr>name = ''P'', rank = 1, W = 1, L = 0, GF = 4, GA = 2, GD = 2\<rparr>,
      \<lparr>name = ''R'', rank = 2, W = 0, L = 2, GF = 5, GA = 9, GD = - 4\<rparr>]"
proof -
  have d: "distinct (map rank [\<lparr>name = ''P'', rank = 1\<rparr>, \<lparr>name = ''Q'', rank = 3\<rparr>,
                               \<lparr>name = ''R'', rank = 2\<rparr>])"
    by simp
  show ?thesis
    using standings_sorted
      [of Number_decimal
          "[\<lparr>name = ''P'', rank = 1\<rparr>, \<lparr>name = ''Q'', rank = 3\<rparr>, \<lparr>name = ''R'', rank = 2\<rparr>]"
          "[(''A::P__R'', Some \<lparr>res_a = ''P'', res_b = ''R'', res_round = 1, ag = ''4'', bg = ''2''\<rparr>),
            (''A::Q__R'', Some \<lparr>res_a = ''Q'', res_b = ''R'', res_round = 2, ag = ''5'', bg = ''3''\<rparr>)]"]
      d
    unfolding standings_three by blast
qed

text \<open>
  C6. The claim: a result whose names are not both on the roster is skipped without an
  error. \<^verbatim>\<open>calcStandings\<close> of \<^verbatim>\<open>src/App.jsx\<close> has no guard: for the roster X, Y and
  the recorded result X against Z 4:2 it reads a field of \<^verbatim>\<open>table[undefined]\<close> and
  throws, where the version with the guard returns the table with no result counted.
\<close>

theorem calcStandings_App_stale_throws:
  "calcStandings_App Number_decimal [\<lparr>name = ''X'', rank = 1\<rparr>, \<lparr>name = ''Y'', rank = 2\<rparr>]
     [(''A::X__Z'', Some \<lparr>res_a = ''X'', res_b = ''Z'', res_round = 1, ag = ''4'', bg = ''2''\<rparr>)] =
     Inl TypeError \<and>
   calcStandings Number_decimal [\<lparr>name = ''X'', rank = 1\<rparr>, \<lparr>name = ''Y'', rank = 2\<rparr>]
     [(''A::X__Z'', Some \<lparr>res_a = ''X'', res_b = ''Z'', res_round = 1, ag = ''4'', bg = ''2''\<rparr>)] =
     [\<lparr>name = ''X'', rank = 1, W = 0, L = 0, GF = 0, GA = 0, GD = 0\<rparr>,
      \<lparr>name = ''Y'', rank = 2, W = 0, L = 0, GF = 0, GA = 0, GD = 0\<rparr>]"
proof -
  have ix: "index_of (initial_table [\<lparr>name = ''X'', rank = 1\<rparr>, \<lparr>name = ''Y'', rank = 2\<rparr>]) =
        [''X'' \<mapsto> 0, ''Y'' \<mapsto> 1]"
    by (simp add: index_of_def initial_table_def fromEntries_def upt_rec)
  show ?thesis
    unfolding calcStandings_App_def calcStandings_def Let_def ix
    by (simp add: Object_values_def tally_App_def tally_def recorded_def
        initial_table_def sort_by_def compare_rows_def Number_decimal_examples)
qed

section \<open>Scheduler: the loops in closed form\<close>

declare pairs_loop.simps [simp del] rounds_loop.simps [simp del]

lemma pairs_loop_closed:
  "pairs_loop t n half i pairs =
     pairs @ map (\<lambda>i. (slot_name (t ! i), slot_name (t ! (n - 1 - i))))
               (filter (\<lambda>i. \<not> is_bye (t ! i) \<and> \<not> is_bye (t ! (n - 1 - i))) [i..<half])"
proof (induction t n half i pairs rule: pairs_loop.induct)
  case (1 t n half i pairs)
  show ?case
  proof (cases "i < half")
    case False
    then show ?thesis by (subst pairs_loop.simps) simp
  next
    case True
    then have u: "[i..<half] = i # [i + 1..<half]" by (simp add: upt_conv_Cons)
    show ?thesis
    proof (cases "is_bye (t ! i) \<or> is_bye (t ! (n - 1 - i))")
      case True
      with \<open>i < half\<close> have "pairs_loop t n half i pairs = pairs_loop t n half (i + 1) pairs"
        by (subst pairs_loop.simps) (simp add: Let_def)
      also have "\<dots> = pairs @ map (\<lambda>i. (slot_name (t ! i), slot_name (t ! (n - 1 - i))))
               (filter (\<lambda>i. \<not> is_bye (t ! i) \<and> \<not> is_bye (t ! (n - 1 - i))) [i + 1..<half])"
        using "1.IH"(1) [OF \<open>i < half\<close> refl refl True] .
      finally show ?thesis unfolding u using True by simp
    next
      case False
      with \<open>i < half\<close> have "pairs_loop t n half i pairs =
          pairs_loop t n half (i + 1) (pairs @ [(slot_name (t ! i), slot_name (t ! (n - 1 - i)))])"
        by (subst pairs_loop.simps) (simp add: Let_def)
      also have "\<dots> = (pairs @ [(slot_name (t ! i), slot_name (t ! (n - 1 - i)))]) @
               map (\<lambda>i. (slot_name (t ! i), slot_name (t ! (n - 1 - i))))
               (filter (\<lambda>i. \<not> is_bye (t ! i) \<and> \<not> is_bye (t ! (n - 1 - i))) [i + 1..<half])"
        using "1.IH"(2) [OF \<open>i < half\<close> refl refl False] .
      finally show ?thesis unfolding u using False by simp
    qed
  qed
qed

lemma pairs_loop_round_pairs:
  "pairs_loop t (length t) (length t div 2) 0 [] = round_pairs t"
  by (simp add: pairs_loop_closed round_pairs_def)

lemma rounds_loop_closed:
  "rounds_loop t n rounds half r schedule =
     schedule @ map (\<lambda>k. \<lparr>round_no = int (r + k) + 1,
                           matches = pairs_loop ((rotate_tail ^^ k) t) n half 0 []\<rparr>)
                  [0..<nat (rounds - int r)]"
proof (induction t n rounds half r schedule rule: rounds_loop.induct)
  case (1 t n rounds half r schedule)
  show ?case
  proof (cases "int r < rounds")
    case False
    then show ?thesis by (subst rounds_loop.simps) simp
  next
    case True
    then obtain d where d: "nat (rounds - int r) = Suc d" and d': "nat (rounds - int (r + 1)) = d"
      by (cases "nat (rounds - int r)") auto
    have u: "[0..<Suc d] = 0 # map Suc [0..<d]"
      by (simp add: upt_conv_Cons map_Suc_upt)
    have "rounds_loop t n rounds half r schedule =
          rounds_loop (rotate_tail t) n rounds half (r + 1)
            (schedule @ [\<lparr>round_no = int r + 1, matches = pairs_loop t n half 0 []\<rparr>])"
      using True by (subst rounds_loop.simps) (simp add: Let_def)
    also have "\<dots> = (schedule @ [\<lparr>round_no = int r + 1, matches = pairs_loop t n half 0 []\<rparr>]) @
          map (\<lambda>k. \<lparr>round_no = int (r + 1 + k) + 1,
                     matches = pairs_loop ((rotate_tail ^^ k) (rotate_tail t)) n half 0 []\<rparr>)
            [0..<nat (rounds - int (r + 1))]"
      using "1.IH" [OF True refl] .
    finally show ?thesis
      unfolding d d' u by (simp add: comp_def funpow_swap1)
  qed
qed

section \<open>Scheduler: the rotation\<close>

lemma mset_rotate_tail: "t \<noteq> [] \<Longrightarrow> mset (rotate_tail t) = mset t"
proof -
  assume t: "t \<noteq> []"
  have "mset (take 1 (butlast t)) + mset (drop 1 (butlast t)) = mset (butlast t)"
    by (metis append_take_drop_id mset_append)
  then have "mset (rotate_tail t) = mset (butlast t) + {#last t#}"
    unfolding rotate_tail_def Let_def by simp
  also have "\<dots> = mset (butlast t @ [last t])" by simp
  also have "\<dots> = mset t" using t by simp
  finally show ?thesis .
qed

lemma length_rotate_tail: "t \<noteq> [] \<Longrightarrow> length (rotate_tail t) = length t"
  using mset_rotate_tail [of t] mset_eq_length by fastforce

lemma rotate_tail_nonempty: "rotate_tail t \<noteq> []"
  by (simp add: rotate_tail_def Let_def)

lemma funpow_rotate_tail:
  "t \<noteq> [] \<Longrightarrow> mset ((rotate_tail ^^ k) t) = mset t \<and> (rotate_tail ^^ k) t \<noteq> []"
  by (induction k) (simp_all add: mset_rotate_tail rotate_tail_nonempty)

lemma length_funpow_rotate_tail: "t \<noteq> [] \<Longrightarrow> length ((rotate_tail ^^ k) t) = length t"
  using funpow_rotate_tail [of t k] mset_eq_length by blast

lemma distinct_funpow_rotate_tail:
  "t \<noteq> [] \<Longrightarrow> distinct t \<Longrightarrow> distinct ((rotate_tail ^^ k) t)"
  using funpow_rotate_tail [of t k] mset_eq_imp_distinct_iff by blast

lemma nth_rotate_tail:
  assumes "2 \<le> length t" and "j < length t"
  shows "rotate_tail t ! j = t ! (if j = 0 then 0 else if j = 1 then length t - 1 else j - 1)"
proof -
  let ?u = "butlast t"
  have lu: "length ?u = length t - 1" by simp
  have t1: "take 1 ?u = [t ! 0]"
    using assms(1) by (cases t) (auto simp: take_Suc_conv_app_nth nth_butlast)
  have r: "rotate_tail t = t ! 0 # last t # drop 1 ?u"
    unfolding rotate_tail_def Let_def t1 by simp
  show ?thesis
  proof (cases j)
    case 0
    then show ?thesis by (simp add: r)
  next
    case (Suc j')
    show ?thesis
    proof (cases j')
      case 0
      have "t \<noteq> []" using assms(1) by auto
      then have "last t = t ! (length t - 1)" by (rule last_conv_nth)
      with 0 Suc show ?thesis by (simp add: r)
    next
      case (Suc j'')
      with \<open>j = Suc j'\<close> assms have "drop 1 ?u ! j'' = ?u ! (1 + j'')"
        by (intro nth_drop) simp
      also have "\<dots> = t ! (1 + j'')"
        using Suc \<open>j = Suc j'\<close> assms by (simp add: nth_butlast)
      finally show ?thesis using Suc \<open>j = Suc j'\<close> by (simp add: r)
    qed
  qed
qed

lemma src_step:
  assumes "2 \<le> n" and "j < n"
  shows "src n r (if j = 0 then 0 else if j = 1 then n - 1 else j - 1) = src n (Suc r) j"
proof -
  obtain k where n: "n = Suc (Suc k)" using assms(1) by (metis Suc_le_D numeral_2_eq_2 Suc_le_mono le0 add_2_eq_Suc le_Suc_ex)
  show ?thesis
  proof (cases "j = 0")
    case True
    then show ?thesis by (simp add: src_def)
  next
    case False
    show ?thesis
    proof (cases "j = 1")
      case True
      then show ?thesis unfolding src_def n by (simp add: add.commute)
    next
      case False
      with \<open>j \<noteq> 0\<close> obtain i where j: "j = Suc (Suc i)"
        by (metis One_nat_def not0_implies_Suc)
      have "(Suc i + (k + r * k)) mod Suc k = (i + r * k + Suc k) mod Suc k"
        by (simp add: ac_simps)
      also have "\<dots> = (i + r * k) mod Suc k" by (simp only: mod_add_self2)
      finally show ?thesis unfolding src_def n j by simp
    qed
  qed
qed

lemma src_less:
  assumes "2 \<le> n" and "j < n"
  shows "src n r j < n"
proof (cases "j = 0")
  case True
  then show ?thesis using assms by (simp add: src_def)
next
  case False
  have "(j - 1 + r * (n - 2)) mod (n - 1) < n - 1"
    by (rule mod_less_divisor) (use assms in simp)
  then have "Suc ((j - 1 + r * (n - 2)) mod (n - 1)) < n" by linarith
  with False show ?thesis by (simp only: src_def if_False)
qed

lemma nth_funpow_rotate_tail:
  assumes "2 \<le> length t" and "j < length t"
  shows "(rotate_tail ^^ r) t ! j = t ! src (length t) r j"
  using assms(2)
proof (induction r arbitrary: j)
  case 0
  then show ?case by (cases j) (simp_all add: src_def)
next
  case (Suc r)
  let ?u = "(rotate_tail ^^ r) t"
  let ?j = "if j = 0 then 0 else if j = 1 then length t - 1 else j - 1"
  have ne: "t \<noteq> []" using assms(1) by auto
  have lu: "length ?u = length t" by (rule length_funpow_rotate_tail [OF ne])
  have j': "?j < length t" using Suc.prems assms(1) by auto
  have "(rotate_tail ^^ Suc r) t ! j = rotate_tail ?u ! j" by simp
  also have "\<dots> = ?u ! ?j"
    using nth_rotate_tail [of ?u j] assms(1) Suc.prems unfolding lu by simp
  also have "\<dots> = t ! src (length t) r ?j"
    by (rule Suc.IH [OF j'])
  also have "src (length t) r ?j = src (length t) (Suc r) j"
    by (rule src_step [OF assms(1) Suc.prems])
  finally show ?case .
qed

lemma roundRobin_closed:
  "roundRobin teams =
     map (\<lambda>k. \<lparr>round_no = int k + 1,
                matches = round_pairs ((rotate_tail ^^ k) (working_list teams))\<rparr>)
       [0..<length (working_list teams) - 1]"
proof -
  let ?t = "working_list teams"
  have "roundRobin teams =
        map (\<lambda>k. \<lparr>round_no = int k + 1,
                   matches = pairs_loop ((rotate_tail ^^ k) ?t) (length ?t) (length ?t div 2) 0 []\<rparr>)
          [0..<nat (int (length ?t) - 1)]"
    unfolding roundRobin_def Let_def working_list_def [symmetric]
    by (simp add: rounds_loop_closed)
  also have "nat (int (length ?t) - 1) = length ?t - 1" by simp
  also have "map (\<lambda>k. \<lparr>round_no = int k + 1,
                   matches = pairs_loop ((rotate_tail ^^ k) ?t) (length ?t) (length ?t div 2) 0 []\<rparr>)
          [0..<length ?t - 1] =
        map (\<lambda>k. \<lparr>round_no = int k + 1, matches = round_pairs ((rotate_tail ^^ k) ?t)\<rparr>)
          [0..<length ?t - 1]"
  proof (rule map_cong [OF refl])
    fix k assume "k \<in> set [0..<length ?t - 1]"
    then have "?t \<noteq> []" by auto
    then have "length ((rotate_tail ^^ k) ?t) = length ?t"
      by (rule length_funpow_rotate_tail)
    then show "\<lparr>round_no = int k + 1,
                   matches = pairs_loop ((rotate_tail ^^ k) ?t) (length ?t) (length ?t div 2) 0 []\<rparr> =
        \<lparr>round_no = int k + 1, matches = round_pairs ((rotate_tail ^^ k) ?t)\<rparr>"
      using pairs_loop_round_pairs [of "(rotate_tail ^^ k) ?t"] by simp
  qed
  finally show ?thesis .
qed

section \<open>Scheduler: arithmetic of the circle\<close>

lemma mod_eq_less_imp_eq:
  fixes a b m :: nat
  assumes "a mod m = b mod m" and "a \<le> b" and "b - a < m"
  shows "a = b"
proof -
  from assms(1,2) have "m dvd b - a"
    by (metis mod_eq_dvd_iff_nat)
  with assms(3) have "b - a = 0"
    by (meson dvd_imp_le not_less zero_less_iff_neq_zero)
  with assms(2) show ?thesis by simp
qed

lemma odd_double_inj_le:
  fixes m :: nat
  assumes "odd m" and "r \<le> r'" and "r' < m"
    and "(c + 2 * r) mod m = (c + 2 * r') mod m"
  shows "r = r'"
proof -
  have "c + 2 * r \<le> c + 2 * r'" using assms(2) by simp
  with assms(4) have "m dvd (c + 2 * r') - (c + 2 * r)"
    by (metis mod_eq_dvd_iff_nat)
  then have "m dvd 2 * (r' - r)" by (simp add: diff_mult_distrib2)
  moreover have "coprime m 2" using assms(1) by simp
  ultimately have "m dvd r' - r" by (simp add: coprime_dvd_mult_right_iff)
  moreover have "r' - r < m" using assms(3) by simp
  ultimately have "r' - r = 0"
    by (meson dvd_imp_le not_less zero_less_iff_neq_zero)
  with assms(2) show ?thesis by simp
qed

lemma odd_double_inj:
  fixes m :: nat
  assumes "odd m" and "r < m" and "r' < m"
    and "(c + 2 * r) mod m = (c + 2 * r') mod m"
  shows "r = r'"
proof (cases "r \<le> r'")
  case True
  show ?thesis by (rule odd_double_inj_le [OF assms(1) True assms(3,4)])
next
  case False
  then have le: "r' \<le> r" by simp
  have "r' = r" by (rule odd_double_inj_le [OF assms(1) le assms(2) assms(4) [symmetric]])
  then show ?thesis by simp
qed

lemma odd_double_surj:
  fixes m :: nat
  assumes "odd m"
  shows "\<exists>r<m. (c + 2 * r) mod m = 0"
proof -
  have m: "0 < m" using assms by (rule odd_pos)
  let ?f = "\<lambda>r. (c + 2 * r) mod m"
  have "inj_on ?f {..<m}"
  proof (rule inj_onI)
    fix r r' assume "r \<in> {..<m}" "r' \<in> {..<m}" and e: "?f r = ?f r'"
    then have "r < m" "r' < m" by simp_all
    then show "r = r'" using e by (rule odd_double_inj [OF assms])
  qed
  moreover have "?f ` {..<m} \<subseteq> {..<m}"
  proof
    fix v assume "v \<in> ?f ` {..<m}"
    then obtain r where "v = (c + 2 * r) mod m" by blast
    then show "v \<in> {..<m}" using m by simp
  qed
  moreover have "finite {..<m}" by simp
  ultimately have "?f ` {..<m} = {..<m}"
    by (metis endo_inj_surj)
  moreover have "0 \<in> {..<m}" using m by simp
  ultimately have "0 \<in> ?f ` {..<m}" by simp
  then obtain r where "r \<in> {..<m}" "0 = (c + 2 * r) mod m" by (rule imageE)
  then show ?thesis by auto
qed

lemma sum_mod_zero:
  fixes m :: nat
  assumes "u < m" and "v < m" and "u \<noteq> v"
  shows "u + v + 2 = m \<longleftrightarrow> (u + v + 2) mod m = 0"
proof
  assume "u + v + 2 = m"
  then show "(u + v + 2) mod m = 0" by simp
next
  assume "(u + v + 2) mod m = 0"
  then obtain k where k: "u + v + 2 = m * k" by (auto simp: mod_eq_0_iff_dvd)
  have lt: "u + v + 2 < 2 * m" using assms by linarith
  show "u + v + 2 = m"
  proof (cases k)
    case 0
    with k show ?thesis by simp
  next
    case (Suc k')
    show ?thesis
    proof (cases k')
      case 0
      with Suc k show ?thesis by simp
    next
      case (Suc k'')
      with \<open>k = Suc k'\<close> have "2 * m \<le> m * k" by simp
      with k lt show ?thesis by simp
    qed
  qed
qed

lemma shift_inj:
  fixes m :: nat
  assumes "x < m" and "y < m" and "(x + r) mod m = (y + r) mod m"
  shows "x = y"
proof (cases "x \<le> y")
  case True
  have "x + r = y + r"
    by (rule mod_eq_less_imp_eq [OF assms(3)]) (use True assms(2) in simp_all)
  then show ?thesis by simp
next
  case False
  have "y + r = x + r"
    by (rule mod_eq_less_imp_eq [OF assms(3) [symmetric]]) (use False assms(1) in simp_all)
  then show ?thesis by simp
qed

lemma tail_sum_mod:
  fixes m :: nat
  shows "((x + r) mod m + (y + r) mod m + 2) mod m = (x + y + 2 + 2 * r) mod m"
proof -
  have "((x + r) mod m + (y + r) mod m + 2) mod m = ((x + r) + (y + r) + 2) mod m"
  proof (rule mod_add_cong)
    show "((x + r) mod m + (y + r) mod m) mod m = ((x + r) + (y + r)) mod m"
      by (rule mod_add_eq)
  qed (rule refl)
  moreover have "(x + r) + (y + r) + 2 = x + y + 2 + 2 * r" by simp
  ultimately show ?thesis by (simp only:)
qed

lemma tail_meet_iff:
  fixes m :: nat
  assumes "x < m" and "y < m" and "x \<noteq> y"
  shows "(x + r) mod m + (y + r) mod m + 2 = m \<longleftrightarrow> (x + y + 2 + 2 * r) mod m = 0"
proof -
  have m: "0 < m" using assms(1) by simp
  have ne: "(x + r) mod m \<noteq> (y + r) mod m"
  proof
    assume "(x + r) mod m = (y + r) mod m"
    then have "x = y" by (rule shift_inj [OF assms(1,2)])
    with assms(3) show False ..
  qed
  have "(x + r) mod m + (y + r) mod m + 2 = m \<longleftrightarrow>
        ((x + r) mod m + (y + r) mod m + 2) mod m = 0"
    by (rule sum_mod_zero [OF mod_less_divisor [OF m] mod_less_divisor [OF m] ne])
  then show ?thesis by (simp only: tail_sum_mod)
qed

lemma tail_meet:
  fixes m :: nat
  assumes "odd m" and "x < m" and "y < m" and "x \<noteq> y"
  shows "\<exists>!r. r < m \<and> (x + r) mod m + (y + r) mod m + 2 = m"
proof -
  note eq = tail_meet_iff [OF assms(2,3,4)]
  have "\<exists>r<m. (x + y + 2 + 2 * r) mod m = 0"
    by (rule odd_double_surj [OF assms(1)])
  then obtain r0 where r0: "r0 < m" "(x + y + 2 + 2 * r0) mod m = 0"
    by (elim exE conjE)
  show ?thesis
  proof (rule ex1I [of _ r0])
    have "(x + r0) mod m + (y + r0) mod m + 2 = m"
      using r0(2) by (rule eq [THEN iffD2])
    with r0(1) show "r0 < m \<and> (x + r0) mod m + (y + r0) mod m + 2 = m" ..
  next
    fix r assume a: "r < m \<and> (x + r) mod m + (y + r) mod m + 2 = m"
    then have r1: "r < m" ..
    from a have "(x + r) mod m + (y + r) mod m + 2 = m" ..
    then have r2: "(x + y + 2 + 2 * r) mod m = 0" by (rule eq [THEN iffD1])
    have "(x + y + 2 + 2 * r) mod m = (x + y + 2 + 2 * r0) mod m"
      by (simp only: r2 r0(2))
    then show "r = r0"
      by (rule odd_double_inj [OF assms(1) r1 r0(1)])
  qed
qed

lemma head_meet:
  fixes m :: nat
  assumes "y < m"
  shows "\<exists>!r. r < m \<and> Suc ((y + r) mod m) = m"
proof (rule ex1I [of _ "m - 1 - y"])
  show "m - 1 - y < m \<and> Suc ((y + (m - 1 - y)) mod m) = m"
    using assms by simp
next
  fix r assume "r < m \<and> Suc ((y + r) mod m) = m"
  then have r: "r < m" and "Suc ((y + r) mod m) = m" by simp_all
  then have "(y + r) mod m = m - 1" by linarith
  then have "(y + r) mod m = (y + (m - 1 - y)) mod m" using assms by simp
  then have "(r + y) mod m = ((m - 1 - y) + y) mod m" by (simp add: add.commute)
  then show "r = m - 1 - y"
    using shift_inj [of r m "m - 1 - y" y] r assms by simp
qed

section \<open>Scheduler: positions\<close>

lemma shift_back:
  "((a + r * k) mod Suc k + r) mod Suc k = a mod Suc k"
proof -
  have "((a + r * k) mod Suc k + r) mod Suc k = (a + r * k + r) mod Suc k"
    by (rule mod_add_left_eq)
  also have "a + r * k + r = a + r * Suc k" by simp
  also have "(a + r * Suc k) mod Suc k = a mod Suc k"
    by (rule mod_mult_self1 [of a r "Suc k", unfolded mult.commute [of "Suc k" r]])
  finally show ?thesis .
qed

lemma shift_forth:
  "((a + r) mod Suc k + r * k) mod Suc k = a mod Suc k"
proof -
  have "((a + r) mod Suc k + r * k) mod Suc k = (a + r + r * k) mod Suc k"
    by (rule mod_add_left_eq)
  also have "a + r + r * k = a + r * Suc k" by simp
  also have "(a + r * Suc k) mod Suc k = a mod Suc k"
    by (rule mod_mult_self1 [of a r "Suc k", unfolded mult.commute [of "Suc k" r]])
  finally show ?thesis .
qed

lemma pos_less:
  assumes "2 \<le> n" and "p < n"
  shows "pos n r p < n"
proof (cases "p = 0")
  case True
  then show ?thesis using assms by (simp add: pos_def)
next
  case False
  have "(p - 1 + r) mod (n - 1) < n - 1"
    by (rule mod_less_divisor) (use assms in simp)
  then have "Suc ((p - 1 + r) mod (n - 1)) < n" by linarith
  with False show ?thesis by (simp only: pos_def if_False)
qed

lemma pos_src:
  assumes "2 \<le> n" and "j < n"
  shows "pos n r (src n r j) = j"
proof (cases "j = 0")
  case True
  then show ?thesis by (simp add: pos_def src_def)
next
  case False
  obtain k where n: "n = Suc (Suc k)"
    using assms(1) by (cases n; cases "n - 1") auto
  from False obtain a where j: "j = Suc a" by (cases j) auto
  have a: "a < Suc k" using assms(2) n j by simp
  have "pos n r (src n r j) = Suc (((a + r * k) mod Suc k + r) mod Suc k)"
    unfolding src_def pos_def n j by simp
  also have "\<dots> = Suc (a mod Suc k)" by (simp only: shift_back)
  also have "\<dots> = j" using a j by simp
  finally show ?thesis .
qed

lemma src_pos:
  assumes "2 \<le> n" and "p < n"
  shows "src n r (pos n r p) = p"
proof (cases "p = 0")
  case True
  then show ?thesis by (simp add: pos_def src_def)
next
  case False
  obtain k where n: "n = Suc (Suc k)"
    using assms(1) by (cases n; cases "n - 1") auto
  from False obtain a where p: "p = Suc a" by (cases p) auto
  have a: "a < Suc k" using assms(2) n p by simp
  have "src n r (pos n r p) = Suc (((a + r) mod Suc k + r * k) mod Suc k)"
    unfolding src_def pos_def n p by simp
  also have "\<dots> = Suc (a mod Suc k)" by (simp only: shift_forth)
  also have "\<dots> = p" using a p by simp
  finally show ?thesis .
qed

lemma src_eq_iff:
  assumes "2 \<le> n" and "j < n" and "p < n"
  shows "src n r j = p \<longleftrightarrow> j = pos n r p"
  using pos_src [OF assms(1,2), of r] src_pos [OF assms(1,3), of r] by auto

lemma pair_of_less:
  assumes "even n" and "2 \<le> n" and "p < n"
  shows "pair_of n r p < n div 2"
proof -
  have P: "pos n r p < n" by (rule pos_less [OF assms(2,3)])
  obtain h where h: "n = 2 * h" using assms(1) by (elim evenE)
  show ?thesis unfolding pair_of_def h using P h by simp
qed

lemma in_pair_iff:
  assumes "2 \<le> n" and "p < n" and "i < n div 2"
  shows "(src n r i = p \<or> src n r (n - 1 - i) = p) \<longleftrightarrow> i = pair_of n r p"
proof -
  have P: "pos n r p < n" by (rule pos_less [OF assms(1,2)])
  have i: "i < n" "n - 1 - i < n" using assms by simp_all
  have 1: "src n r i = p \<longleftrightarrow> i = pos n r p"
    by (rule src_eq_iff [OF assms(1) i(1) assms(2)])
  have 2: "src n r (n - 1 - i) = p \<longleftrightarrow> n - 1 - i = pos n r p"
    by (rule src_eq_iff [OF assms(1) i(2) assms(2)])
  have "2 * i < n" using assms(3) by linarith
  then show ?thesis unfolding 1 2 pair_of_def using P by linarith
qed

lemma both_in_pair_iff:
  assumes "2 \<le> n" and "p < n" and "q < n" and "i < n div 2"
  shows "(src n r i = p \<and> src n r (n - 1 - i) = q \<or> src n r i = q \<and> src n r (n - 1 - i) = p)
           \<longleftrightarrow> pos n r p + pos n r q = n - 1 \<and> i = pair_of n r p"
proof -
  have P: "pos n r p < n" by (rule pos_less [OF assms(1,2)])
  have Q: "pos n r q < n" by (rule pos_less [OF assms(1,3)])
  have i: "i < n" "n - 1 - i < n" using assms by simp_all
  have 1: "src n r i = p \<longleftrightarrow> i = pos n r p"
    by (rule src_eq_iff [OF assms(1) i(1) assms(2)])
  have 2: "src n r (n - 1 - i) = p \<longleftrightarrow> n - 1 - i = pos n r p"
    by (rule src_eq_iff [OF assms(1) i(2) assms(2)])
  have 3: "src n r i = q \<longleftrightarrow> i = pos n r q"
    by (rule src_eq_iff [OF assms(1) i(1) assms(3)])
  have 4: "src n r (n - 1 - i) = q \<longleftrightarrow> n - 1 - i = pos n r q"
    by (rule src_eq_iff [OF assms(1) i(2) assms(3)])
  have "2 * i < n" using assms(4) by linarith
  then show ?thesis unfolding 1 2 3 4 pair_of_def using P Q by linarith
qed

lemma meet_round:
  assumes "even n" and "2 \<le> n" and "p < n" and "q < n" and "p \<noteq> q"
  shows "\<exists>!r. r < n - 1 \<and> pos n r p + pos n r q = n - 1"
proof -
  have m: "odd (n - 1)" using assms(1,2) by simp
  show ?thesis
  proof (cases "p = 0")
    case True
    with assms(5) obtain y where q: "q = Suc y" by (cases q) auto
    have y: "y < n - 1" using assms(4) q by simp
    have eq: "pos n r p + pos n r q = n - 1 \<longleftrightarrow> Suc ((y + r) mod (n - 1)) = n - 1" for r
      unfolding pos_def True q by simp
    show ?thesis unfolding eq by (rule head_meet [OF y])
  next
    case False
    then obtain x where p: "p = Suc x" by (cases p) auto
    have x: "x < n - 1" using assms(3) p by simp
    show ?thesis
    proof (cases "q = 0")
      case True
      have eq: "pos n r p + pos n r q = n - 1 \<longleftrightarrow> Suc ((x + r) mod (n - 1)) = n - 1" for r
        unfolding pos_def True p by simp
      show ?thesis unfolding eq by (rule head_meet [OF x])
    next
      case False
      then obtain y where q: "q = Suc y" by (cases q) auto
      have y: "y < n - 1" using assms(4) q by simp
      have xy: "x \<noteq> y" using assms(5) p q by simp
      have eq: "pos n r p + pos n r q = n - 1 \<longleftrightarrow>
                (x + r) mod (n - 1) + (y + r) mod (n - 1) + 2 = n - 1" for r
        unfolding pos_def p q by simp
      show ?thesis unfolding eq by (rule tail_meet [OF m x y xy])
    qed
  qed
qed

section \<open>Scheduler: the working array\<close>

lemma length_working_list:
  "length (working_list teams) = length teams + length teams mod 2"
  by (simp add: working_list_def)

lemma even_working_list: "even (length (working_list teams))"
  unfolding length_working_list by presburger

lemma nth_working_list_team:
  "p < length teams \<Longrightarrow> working_list teams ! p = Team (teams ! p)"
  by (simp add: working_list_def nth_append)

lemma nth_working_list_bye:
  "odd (length teams) \<Longrightarrow> working_list teams ! length teams = BYE"
  by (simp add: working_list_def nth_append odd_iff_mod_2_eq_one)

lemma is_bye_working_list:
  assumes "j < length (working_list teams)"
  shows "is_bye (working_list teams ! j) \<longleftrightarrow> odd (length teams) \<and> j = length teams"
proof (cases "j < length teams")
  case True
  then show ?thesis by (simp add: nth_working_list_team)
next
  case False
  with assms have "odd (length teams) \<and> j = length teams"
    unfolding length_working_list by (cases "even (length teams)") (auto simp: odd_iff_mod_2_eq_one)
  then show ?thesis by (simp add: nth_working_list_bye)
qed

lemma slot_name_working_list:
  assumes "distinct (map name teams)" and "p < length teams"
    and "j < length (working_list teams)" and "\<not> is_bye (working_list teams ! j)"
  shows "slot_name (working_list teams ! j) = name (teams ! p) \<longleftrightarrow> j = p"
proof -
  from assms(3,4) have j: "j < length teams"
    using is_bye_working_list [OF assms(3)] unfolding length_working_list
    by (cases "even (length teams)") (auto simp: odd_iff_mod_2_eq_one)
  then have "slot_name (working_list teams ! j) = map name teams ! j"
    by (simp add: nth_working_list_team)
  moreover have "name (teams ! p) = map name teams ! p" using assms(2) by simp
  ultimately show ?thesis
    using nth_eq_iff_index_eq [OF assms(1), of j p] j assms(2) by simp
qed

lemma round_pairs_rotated:
  assumes "2 \<le> length t"
  shows "round_pairs ((rotate_tail ^^ r) t) =
           map (\<lambda>i. (slot_name (t ! src (length t) r i),
                      slot_name (t ! src (length t) r (length t - 1 - i))))
             (filter (\<lambda>i. \<not> is_bye (t ! src (length t) r i) \<and>
                           \<not> is_bye (t ! src (length t) r (length t - 1 - i)))
                [0..<length t div 2])"
proof -
  have ne: "t \<noteq> []" using assms by auto
  have l: "length ((rotate_tail ^^ r) t) = length t"
    by (rule length_funpow_rotate_tail [OF ne])
  have nth: "(rotate_tail ^^ r) t ! i = t ! src (length t) r i"
    "(rotate_tail ^^ r) t ! (length t - 1 - i) = t ! src (length t) r (length t - 1 - i)"
    if "i \<in> set [0..<length t div 2]" for i
  proof -
    from that have "i < length t" "length t - 1 - i < length t" using assms by auto
    then show "(rotate_tail ^^ r) t ! i = t ! src (length t) r i"
      "(rotate_tail ^^ r) t ! (length t - 1 - i) = t ! src (length t) r (length t - 1 - i)"
      by (simp_all only: nth_funpow_rotate_tail [OF assms])
  qed
  have f: "filter (\<lambda>i. \<not> is_bye ((rotate_tail ^^ r) t ! i) \<and>
                        \<not> is_bye ((rotate_tail ^^ r) t ! (length t - 1 - i))) [0..<length t div 2] =
           filter (\<lambda>i. \<not> is_bye (t ! src (length t) r i) \<and>
                        \<not> is_bye (t ! src (length t) r (length t - 1 - i))) [0..<length t div 2]"
    by (rule filter_cong [OF refl]) (simp only: nth)
  show ?thesis
    unfolding round_pairs_def l f
  proof (rule map_cong [OF refl])
    fix i
    assume "i \<in> set (filter (\<lambda>i. \<not> is_bye (t ! src (length t) r i) \<and>
                        \<not> is_bye (t ! src (length t) r (length t - 1 - i))) [0..<length t div 2])"
    then have "i \<in> set [0..<length t div 2]" by simp
    from nth [OF this]
    show "(slot_name ((rotate_tail ^^ r) t ! i),
           slot_name ((rotate_tail ^^ r) t ! (length t - 1 - i))) =
          (slot_name (t ! src (length t) r i),
           slot_name (t ! src (length t) r (length t - 1 - i)))"
      by (simp only:)
  qed
qed

section \<open>Scheduler: counting\<close>

lemma length_filter_eq:
  "length (filter (\<lambda>i. S \<and> i = c) [0..<h]) = (if S \<and> c < h then 1 else 0)"
  by (induction h) auto

lemma length_filter_neq:
  "c < h \<Longrightarrow> length (filter (\<lambda>i. i \<noteq> c) [0..<h]) = h - 1"
proof -
  assume c: "c < h"
  have "length (filter (\<lambda>i. i = c) [0..<h]) + length (filter (\<lambda>i. \<not> i = c) [0..<h]) = length [0..<h]"
    by (rule sum_length_filter_compl)
  moreover have "length (filter (\<lambda>i. i = c) [0..<h]) = 1"
    using length_filter_eq [of True c h] c by simp
  ultimately show ?thesis by simp
qed

lemma length_filter_concat:
  "length (filter P (concat xss)) = sum_list (map (\<lambda>xs. length (filter P xs)) xss)"
  by (induction xss) simp_all

lemma length_concat_const:
  assumes "\<And>xs. xs \<in> set xss \<Longrightarrow> length xs = c"
  shows "length (concat xss) = length xss * c"
  using assms by (induction xss) simp_all

section \<open>Scheduler: one round of a roster\<close>

lemma pair_is_meeting:
  assumes d: "distinct (map name teams)"
    and p: "p < length teams" and q: "q < length teams"
    and j: "j < length (working_list teams)" and k: "k < length (working_list teams)"
  shows "\<not> is_bye (working_list teams ! j) \<and> \<not> is_bye (working_list teams ! k) \<and>
         meets (name (teams ! p)) (name (teams ! q))
           (slot_name (working_list teams ! j), slot_name (working_list teams ! k))
         \<longleftrightarrow> j = p \<and> k = q \<or> j = q \<and> k = p"
proof
  assume a: "\<not> is_bye (working_list teams ! j) \<and> \<not> is_bye (working_list teams ! k) \<and>
         meets (name (teams ! p)) (name (teams ! q))
           (slot_name (working_list teams ! j), slot_name (working_list teams ! k))"
  then have nb: "\<not> is_bye (working_list teams ! j)" "\<not> is_bye (working_list teams ! k)"
    by simp_all
  note jp = slot_name_working_list [OF d p j nb(1)]
  note jq = slot_name_working_list [OF d q j nb(1)]
  note kp = slot_name_working_list [OF d p k nb(2)]
  note kq = slot_name_working_list [OF d q k nb(2)]
  from a have "slot_name (working_list teams ! j) = name (teams ! p) \<and>
               slot_name (working_list teams ! k) = name (teams ! q) \<or>
               slot_name (working_list teams ! j) = name (teams ! q) \<and>
               slot_name (working_list teams ! k) = name (teams ! p)"
    by (simp add: meets_def)
  then show "j = p \<and> k = q \<or> j = q \<and> k = p"
    unfolding jp jq kp kq .
next
  assume "j = p \<and> k = q \<or> j = q \<and> k = p"
  then show "\<not> is_bye (working_list teams ! j) \<and> \<not> is_bye (working_list teams ! k) \<and>
         meets (name (teams ! p)) (name (teams ! q))
           (slot_name (working_list teams ! j), slot_name (working_list teams ! k))"
    using p q by (auto simp: nth_working_list_team meets_def)
qed

lemma round_meets_count:
  assumes d: "distinct (map name teams)"
    and p: "p < length teams" and q: "q < length teams"
    and n: "2 \<le> length (working_list teams)"
  shows "length (filter (meets (name (teams ! p)) (name (teams ! q)))
                  (round_pairs ((rotate_tail ^^ r) (working_list teams)))) =
         (if pos (length (working_list teams)) r p + pos (length (working_list teams)) r q =
               length (working_list teams) - 1
          then 1 else 0)"
proof -
  let ?t = "working_list teams"
  let ?n = "length ?t"
  let ?a = "name (teams ! p)" and ?b = "name (teams ! q)"
  let ?S = "pos ?n r p + pos ?n r q = ?n - 1"
  have pn: "p < ?n" and qn: "q < ?n" using p q by (simp_all add: length_working_list)
  have c: "pair_of ?n r p < ?n div 2"
    by (rule pair_of_less [OF even_working_list n pn])
  have "length (filter (meets ?a ?b) (round_pairs ((rotate_tail ^^ r) ?t))) =
        length (filter (\<lambda>i. (\<not> is_bye (?t ! src ?n r i) \<and> \<not> is_bye (?t ! src ?n r (?n - 1 - i))) \<and>
                             meets ?a ?b (slot_name (?t ! src ?n r i),
                                          slot_name (?t ! src ?n r (?n - 1 - i))))
                  [0..<?n div 2])"
    unfolding round_pairs_rotated [OF n] filter_map length_map filter_filter comp_def ..
  also have "filter (\<lambda>i. (\<not> is_bye (?t ! src ?n r i) \<and> \<not> is_bye (?t ! src ?n r (?n - 1 - i))) \<and>
                             meets ?a ?b (slot_name (?t ! src ?n r i),
                                          slot_name (?t ! src ?n r (?n - 1 - i))))
                  [0..<?n div 2] =
             filter (\<lambda>i. ?S \<and> i = pair_of ?n r p) [0..<?n div 2]"
  proof (rule filter_cong [OF refl])
    fix i assume "i \<in> set [0..<?n div 2]"
    then have i: "i < ?n div 2" by simp
    then have "i < ?n" "?n - 1 - i < ?n" using n by simp_all
    then have s: "src ?n r i < ?n" "src ?n r (?n - 1 - i) < ?n"
      by (simp_all only: src_less [OF n])
    have "(\<not> is_bye (?t ! src ?n r i) \<and> \<not> is_bye (?t ! src ?n r (?n - 1 - i))) \<and>
            meets ?a ?b (slot_name (?t ! src ?n r i), slot_name (?t ! src ?n r (?n - 1 - i)))
          \<longleftrightarrow> src ?n r i = p \<and> src ?n r (?n - 1 - i) = q \<or>
              src ?n r i = q \<and> src ?n r (?n - 1 - i) = p"
      using pair_is_meeting [OF d p q s] by (simp only: conj_assoc)
    also have "\<dots> \<longleftrightarrow> ?S \<and> i = pair_of ?n r p"
      by (rule both_in_pair_iff [OF n pn qn i])
    finally show "((\<not> is_bye (?t ! src ?n r i) \<and> \<not> is_bye (?t ! src ?n r (?n - 1 - i))) \<and>
            meets ?a ?b (slot_name (?t ! src ?n r i), slot_name (?t ! src ?n r (?n - 1 - i))))
          = (?S \<and> i = pair_of ?n r p)" .
  qed
  also have "length (filter (\<lambda>i. ?S \<and> i = pair_of ?n r p) [0..<?n div 2]) = (if ?S then 1 else 0)"
    unfolding length_filter_eq using c by simp
  finally show ?thesis .
qed

lemma round_length:
  assumes n: "2 \<le> length (working_list teams)"
  shows "length (round_pairs ((rotate_tail ^^ r) (working_list teams))) = length teams div 2"
proof -
  let ?t = "working_list teams"
  let ?n = "length ?t"
  let ?ok = "\<lambda>i. \<not> is_bye (?t ! src ?n r i) \<and> \<not> is_bye (?t ! src ?n r (?n - 1 - i))"
  have len: "length (round_pairs ((rotate_tail ^^ r) ?t)) = length (filter ?ok [0..<?n div 2])"
    unfolding round_pairs_rotated [OF n] length_map ..
  have s: "src ?n r i < ?n \<and> src ?n r (?n - 1 - i) < ?n" if "i < ?n div 2" for i
  proof -
    from that have "i < ?n" "?n - 1 - i < ?n" using n by simp_all
    then show ?thesis by (simp only: src_less [OF n])
  qed
  show ?thesis
  proof (cases "even (length teams)")
    case True
    then have nN: "?n = length teams" by (simp add: length_working_list)
    have "filter ?ok [0..<?n div 2] = [0..<?n div 2]"
    proof (rule filter_True)
      show "\<forall>i\<in>set [0..<?n div 2]. ?ok i"
      proof
        fix i assume "i \<in> set [0..<?n div 2]"
        then have "i < ?n div 2" by simp
        from s [OF this] show "?ok i"
          using True by (simp add: is_bye_working_list)
      qed
    qed
    then show ?thesis unfolding len nN [symmetric] by simp
  next
    case False
    then have nN: "?n = length teams + 1"
      by (simp add: length_working_list odd_iff_mod_2_eq_one)
    then have N: "length teams < ?n" by simp
    have c: "pair_of ?n r (length teams) < ?n div 2"
      by (rule pair_of_less [OF even_working_list n N])
    have "filter ?ok [0..<?n div 2] = filter (\<lambda>i. i \<noteq> pair_of ?n r (length teams)) [0..<?n div 2]"
    proof (rule filter_cong [OF refl])
      fix i assume "i \<in> set [0..<?n div 2]"
      then have i: "i < ?n div 2" by simp
      from s [OF i] have "?ok i \<longleftrightarrow>
          \<not> (src ?n r i = length teams \<or> src ?n r (?n - 1 - i) = length teams)"
        using False by (simp add: is_bye_working_list)
      also have "\<dots> \<longleftrightarrow> i \<noteq> pair_of ?n r (length teams)"
        by (simp only: in_pair_iff [OF n N i])
      finally show "?ok i = (i \<noteq> pair_of ?n r (length teams))" .
    qed
    then have "length (filter ?ok [0..<?n div 2]) = ?n div 2 - 1"
      using length_filter_neq [OF c] by simp
    also have "\<dots> = length teams div 2" unfolding nN using False by presburger
    finally show ?thesis unfolding len .
  qed
qed

lemma nth_roundRobin:
  assumes "k < length (working_list teams) - 1"
  shows "roundRobin teams ! k =
           \<lparr>round_no = int k + 1,
            matches = round_pairs ((rotate_tail ^^ k) (working_list teams))\<rparr>"
  unfolding roundRobin_closed using assms by simp

lemma length_roundRobin: "length (roundRobin teams) = length (working_list teams) - 1"
  unfolding roundRobin_closed by simp

lemma half_product:
  fixes N :: nat
  shows "(N + N mod 2 - 1) * (N div 2) = N * (N - 1) div 2"
proof (cases "even N")
  case True
  then obtain h where h: "N = 2 * h" by (elim evenE)
  have "2 * h * (2 * h - 1) div 2 = h * (2 * h - 1)"
    by (simp only: mult.assoc nonzero_mult_div_cancel_left [of 2])
  then show ?thesis unfolding h by (simp add: mult.commute)
next
  case False
  then obtain h where h: "N = 2 * h + 1" by (elim oddE)
  have "(2 * h + 1) * (2 * h) div 2 = (2 * h + 1) * h"
    by (metis mult.left_commute nonzero_mult_div_cancel_left zero_neq_numeral)
  then show ?thesis unfolding h by simp
qed

lemma length_pairings:
  "length (pairings (roundRobin teams)) = length teams * (length teams - 1) div 2"
proof -
  let ?t = "working_list teams"
  have "length (pairings (roundRobin teams)) =
        length (concat (map (\<lambda>k. round_pairs ((rotate_tail ^^ k) ?t)) [0..<length ?t - 1]))"
    unfolding pairings_def roundRobin_closed by (simp add: comp_def)
  also have "\<dots> = length (map (\<lambda>k. round_pairs ((rotate_tail ^^ k) ?t)) [0..<length ?t - 1])
                    * (length teams div 2)"
  proof (rule length_concat_const)
    fix xs assume "xs \<in> set (map (\<lambda>k. round_pairs ((rotate_tail ^^ k) ?t)) [0..<length ?t - 1])"
    then obtain k where k: "k < length ?t - 1" and xs: "xs = round_pairs ((rotate_tail ^^ k) ?t)"
      by auto
    from k have "2 \<le> length ?t" by simp
    then show "length xs = length teams div 2" unfolding xs by (rule round_length)
  qed
  also have "\<dots> = (length teams + length teams mod 2 - 1) * (length teams div 2)"
    by (simp add: length_working_list)
  also have "\<dots> = length teams * (length teams - 1) div 2" by (rule half_product)
  finally show ?thesis .
qed

section \<open>Scheduler: every round is a matching\<close>

lemma pair_indices:
  assumes "2 * h \<le> n"
  shows "distinct (concat (map (\<lambda>i. [i, n - 1 - i]) (filter ok [0..<h]))) \<and>
         set (concat (map (\<lambda>i. [i, n - 1 - i]) (filter ok [0..<h])))
           \<subseteq> {j. j < h \<or> (n - h \<le> j \<and> j < n)}"
  using assms
proof (induction h)
  case 0
  then show ?case by simp
next
  case (Suc h)
  then have IH: "distinct (concat (map (\<lambda>i. [i, n - 1 - i]) (filter ok [0..<h])))"
    "set (concat (map (\<lambda>i. [i, n - 1 - i]) (filter ok [0..<h])))
           \<subseteq> {j. j < h \<or> (n - h \<le> j \<and> j < n)}"
    by simp_all
  show ?case
  proof (cases "ok h")
    case False
    then have "filter ok [0..<Suc h] = filter ok [0..<h]" by simp
    with IH show ?thesis by auto
  next
    case True
    then have e: "concat (map (\<lambda>i. [i, n - 1 - i]) (filter ok [0..<Suc h])) =
                  concat (map (\<lambda>i. [i, n - 1 - i]) (filter ok [0..<h])) @ [h, n - 1 - h]"
      by simp
    have new: "h \<noteq> n - 1 - h" "\<not> (h < h \<or> (n - h \<le> h \<and> h < n))"
      "\<not> (n - 1 - h < h \<or> (n - h \<le> n - 1 - h \<and> n - 1 - h < n))"
      using Suc.prems by arith+
    have "h \<notin> set (concat (map (\<lambda>i. [i, n - 1 - i]) (filter ok [0..<h])))"
      "n - 1 - h \<notin> set (concat (map (\<lambda>i. [i, n - 1 - i]) (filter ok [0..<h])))"
      using IH(2) new(2,3) by blast+
    moreover have "set (concat (map (\<lambda>i. [i, n - 1 - i]) (filter ok [0..<h])))
           \<subseteq> {j. j < Suc h \<or> (n - Suc h \<le> j \<and> j < n)}"
      using IH(2) by auto
    moreover have "h \<in> {j. j < Suc h \<or> (n - Suc h \<le> j \<and> j < n)}"
      "n - 1 - h \<in> {j. j < Suc h \<or> (n - Suc h \<le> j \<and> j < n)}"
      using Suc.prems by auto
    ultimately show ?thesis unfolding e using IH(1) new(1) by simp
  qed
qed

lemma names_in_round_pairs:
  "names_in (round_pairs t) =
     map (\<lambda>j. slot_name (t ! j))
       (concat (map (\<lambda>i. [i, length t - 1 - i])
          (filter (\<lambda>i. \<not> is_bye (t ! i) \<and> \<not> is_bye (t ! (length t - 1 - i)))
             [0..<length t div 2])))"
  unfolding names_in_def round_pairs_def by (simp add: map_concat comp_def)

lemma pair_indices_no_bye:
  assumes "j \<in> set (concat (map (\<lambda>i. [i, length t - 1 - i])
          (filter (\<lambda>i. \<not> is_bye (t ! i) \<and> \<not> is_bye (t ! (length t - 1 - i)))
             [0..<length t div 2])))"
  shows "j < length t \<and> \<not> is_bye (t ! j)"
proof -
  from assms obtain i where i: "i < length t div 2"
    "\<not> is_bye (t ! i)" "\<not> is_bye (t ! (length t - 1 - i))"
    and j: "j = i \<or> j = length t - 1 - i"
    by auto
  from i(1) have "i < length t" "length t - 1 - i < length t" by linarith+
  with i j show ?thesis by auto
qed

lemma distinct_names_round:
  assumes "distinct t"
    and inj: "\<And>x y. x \<in> set t \<Longrightarrow> y \<in> set t \<Longrightarrow> \<not> is_bye x \<Longrightarrow> \<not> is_bye y \<Longrightarrow>
                slot_name x = slot_name y \<Longrightarrow> x = y"
  shows "distinct (names_in (round_pairs t))"
proof -
  let ?J = "concat (map (\<lambda>i. [i, length t - 1 - i])
          (filter (\<lambda>i. \<not> is_bye (t ! i) \<and> \<not> is_bye (t ! (length t - 1 - i)))
             [0..<length t div 2]))"
  have "2 * (length t div 2) \<le> length t" by simp
  then have dJ: "distinct ?J" using pair_indices by blast
  have "inj_on (\<lambda>j. slot_name (t ! j)) (set ?J)"
  proof (rule inj_onI)
    fix j k assume "j \<in> set ?J" "k \<in> set ?J" and e: "slot_name (t ! j) = slot_name (t ! k)"
    then have j: "j < length t" "\<not> is_bye (t ! j)" and k: "k < length t" "\<not> is_bye (t ! k)"
      using pair_indices_no_bye by blast+
    have "t ! j = t ! k"
      by (rule inj [OF nth_mem [OF j(1)] nth_mem [OF k(1)] j(2) k(2) e])
    then show "j = k"
      using nth_eq_iff_index_eq [OF assms(1) j(1) k(1)] by simp
  qed
  with dJ show ?thesis
    unfolding names_in_round_pairs by (simp add: distinct_map)
qed

lemma working_list_names_inj:
  assumes "distinct (map name teams)"
    and "x \<in> set (working_list teams)" and "y \<in> set (working_list teams)"
    and "\<not> is_bye x" and "\<not> is_bye y" and "slot_name x = slot_name y"
  shows "x = y"
proof -
  have s: "set (working_list teams) \<subseteq> insert BYE (Team ` set teams)"
    by (auto simp: working_list_def)
  from assms(2,4) s obtain c where c: "x = Team c" "c \<in> set teams"
    by (cases x) auto
  from assms(3,5) s obtain c' where c': "y = Team c'" "c' \<in> set teams"
    by (cases y) auto
  from assms(1) have "inj_on name (set teams)" by (simp add: distinct_map)
  with assms(6) c c' have "c = c'" by (auto dest: inj_onD)
  with c c' show ?thesis by simp
qed

lemma names_in_no_self:
  "distinct (names_in ms) \<Longrightarrow> (x, y) \<in> set ms \<Longrightarrow> x \<noteq> y"
  unfolding names_in_def by (induction ms) auto

lemma roundRobin_round:
  assumes "f \<in> set (roundRobin teams)"
  obtains k where "k < length (working_list teams) - 1"
    and "f = \<lparr>round_no = int k + 1,
              matches = round_pairs ((rotate_tail ^^ k) (working_list teams))\<rparr>"
  using assms unfolding roundRobin_closed by auto

text \<open>
  C10. For every roster with distinct names, every round of the schedule is a matching:
  the names of its pairings, listed in order, are pairwise different, so a name is in at
  most one pairing of the round and no pairing joins a name with itself.
\<close>

theorem round_is_matching:
  assumes "distinct (map name teams)"
  shows "\<forall>f \<in> set (roundRobin teams).
           distinct (names_in (matches f)) \<and> (\<forall>(x, y) \<in> set (matches f). x \<noteq> y)"
proof
  fix f assume "f \<in> set (roundRobin teams)"
  then obtain k where k: "k < length (working_list teams) - 1"
    and f: "f = \<lparr>round_no = int k + 1,
              matches = round_pairs ((rotate_tail ^^ k) (working_list teams))\<rparr>"
    by (rule roundRobin_round)
  let ?t = "working_list teams"
  let ?u = "(rotate_tail ^^ k) ?t"
  have ne: "?t \<noteq> []" using k by auto
  have dt: "distinct ?t"
    using assms by (auto simp: working_list_def distinct_map inj_on_def)
  have du: "distinct ?u" by (rule distinct_funpow_rotate_tail [OF ne dt])
  have su: "set ?u = set ?t"
    using funpow_rotate_tail [OF ne, of k] by (metis set_mset_mset)
  have d: "distinct (names_in (round_pairs ?u))"
  proof (rule distinct_names_round [OF du])
    fix x y assume "x \<in> set ?u" "y \<in> set ?u" "\<not> is_bye x" "\<not> is_bye y"
      "slot_name x = slot_name y"
    then show "x = y" unfolding su using working_list_names_inj [OF assms] by blast
  qed
  then have "\<forall>(x, y) \<in> set (round_pairs ?u). x \<noteq> y"
    using names_in_no_self by blast
  with d show "distinct (names_in (matches f)) \<and> (\<forall>(x, y) \<in> set (matches f). x \<noteq> y)"
    unfolding f by simp
qed

section \<open>Scheduler: who plays in a round\<close>

lemma set_names_in: "set (names_in ms) = fst ` set ms \<union> snd ` set ms"
  unfolding names_in_def by (induction ms) auto

lemma round_has_name:
  assumes d: "distinct (map name teams)" and p: "p < length teams"
    and odd: "odd (length teams)"
  shows "name (teams ! p) \<in> set (names_in (round_pairs ((rotate_tail ^^ r) (working_list teams))))
         \<longleftrightarrow> pos (length (working_list teams)) r p + pos (length (working_list teams)) r (length teams)
               \<noteq> length (working_list teams) - 1"
proof -
  let ?t = "working_list teams"
  let ?n = "length ?t"
  let ?N = "length teams"
  let ?a = "name (teams ! p)"
  let ?c = "pair_of ?n r p"
  let ?ok = "\<lambda>i. \<not> is_bye (?t ! src ?n r i) \<and> \<not> is_bye (?t ! src ?n r (?n - 1 - i))"
  let ?S = "pos ?n r p + pos ?n r ?N = ?n - 1"
  have nN: "?n = ?N + 1" using odd by (simp add: length_working_list odd_iff_mod_2_eq_one)
  then have n: "2 \<le> ?n" and pn: "p < ?n" and Nn: "?N < ?n" and pN: "p \<noteq> ?N"
    using p by simp_all
  have c: "?c < ?n div 2" by (rule pair_of_less [OF even_working_list n pn])
  have s: "src ?n r i < ?n" "src ?n r (?n - 1 - i) < ?n" if "i < ?n div 2" for i
  proof -
    from that have "i < ?n" "?n - 1 - i < ?n" using n by simp_all
    then show "src ?n r i < ?n" "src ?n r (?n - 1 - i) < ?n" by (simp_all only: src_less [OF n])
  qed
  have bye: "is_bye (?t ! j) \<longleftrightarrow> j = ?N" if "j < ?n" for j
    using is_bye_working_list [OF that] odd by simp
  have inp: "(src ?n r ?c = p \<or> src ?n r (?n - 1 - ?c) = p)"
    using in_pair_iff [OF n pn c, of r] by simp
  have okc: "?ok ?c \<longleftrightarrow> \<not> ?S"
  proof -
    have "?ok ?c \<longleftrightarrow> \<not> (src ?n r ?c = ?N \<or> src ?n r (?n - 1 - ?c) = ?N)"
      using s [OF c] by (simp only: bye) simp
    also have "(src ?n r ?c = ?N \<or> src ?n r (?n - 1 - ?c) = ?N) \<longleftrightarrow>
               (src ?n r ?c = p \<and> src ?n r (?n - 1 - ?c) = ?N \<or>
                src ?n r ?c = ?N \<and> src ?n r (?n - 1 - ?c) = p)"
      using inp pN by (cases "src ?n r ?c = p") simp_all
    also have "\<dots> \<longleftrightarrow> ?S \<and> ?c = ?c"
      by (rule both_in_pair_iff [OF n pn Nn c])
    finally show ?thesis by simp
  qed
  have "?a \<in> set (names_in (round_pairs ((rotate_tail ^^ r) ?t))) \<longleftrightarrow>
        (\<exists>i \<in> set [0..<?n div 2]. ?ok i \<and>
           (slot_name (?t ! src ?n r i) = ?a \<or> slot_name (?t ! src ?n r (?n - 1 - i)) = ?a))"
    unfolding set_names_in round_pairs_rotated [OF n] by (auto simp: image_iff)
  also have "\<dots> \<longleftrightarrow> (\<exists>i \<in> set [0..<?n div 2]. ?ok i \<and> i = ?c)"
  proof (rule bex_cong [OF refl])
    fix i assume "i \<in> set [0..<?n div 2]"
    then have i: "i < ?n div 2" by simp
    show "(?ok i \<and> (slot_name (?t ! src ?n r i) = ?a \<or> slot_name (?t ! src ?n r (?n - 1 - i)) = ?a))
          = (?ok i \<and> i = ?c)"
    proof (cases "?ok i")
      case False
      show ?thesis by (simp only: False simp_thms)
    next
      case True
      then have nb: "\<not> is_bye (?t ! src ?n r i)" "\<not> is_bye (?t ! src ?n r (?n - 1 - i))"
        by simp_all
      have "(slot_name (?t ! src ?n r i) = ?a \<or> slot_name (?t ! src ?n r (?n - 1 - i)) = ?a)
            \<longleftrightarrow> (src ?n r i = p \<or> src ?n r (?n - 1 - i) = p)"
        by (simp only: slot_name_working_list [OF d p s(1) [OF i] nb(1)]
            slot_name_working_list [OF d p s(2) [OF i] nb(2)])
      also have "\<dots> \<longleftrightarrow> i = ?c" by (rule in_pair_iff [OF n pn i])
      finally show ?thesis using True by simp
    qed
  qed
  also have "\<dots> \<longleftrightarrow> ?ok ?c" using c by auto
  also note okc
  finally show ?thesis .
qed

lemma round_names_subset:
  assumes "t \<noteq> []" and "set t \<subseteq> insert BYE (Team ` set teams)"
  shows "set (names_in (round_pairs ((rotate_tail ^^ r) t))) \<subseteq> set (map name teams)"
proof
  let ?u = "(rotate_tail ^^ r) t"
  fix a assume "a \<in> set (names_in (round_pairs ?u))"
  then obtain j where j: "j \<in> set (concat (map (\<lambda>i. [i, length ?u - 1 - i])
          (filter (\<lambda>i. \<not> is_bye (?u ! i) \<and> \<not> is_bye (?u ! (length ?u - 1 - i)))
             [0..<length ?u div 2])))" and a: "a = slot_name (?u ! j)"
    unfolding names_in_round_pairs by auto
  from pair_indices_no_bye [OF j] have "j < length ?u" "\<not> is_bye (?u ! j)" by simp_all
  moreover have "set ?u = set t"
    using funpow_rotate_tail [OF assms(1), of r] by (metis set_mset_mset)
  ultimately have "?u ! j \<in> insert BYE (Team ` set teams)" "\<not> is_bye (?u ! j)"
    using assms(2) nth_mem by blast+
  then obtain c where "?u ! j = Team c" "c \<in> set teams" by (cases "?u ! j") auto
  then show "a \<in> set (map name teams)" unfolding a by simp
qed

section \<open>Scheduler: the claims\<close>

text \<open>
  C1. For every group of \<open>N \<ge> 2\<close> competitors with distinct names, the schedule of
  \<^verbatim>\<open>roundRobin\<close> has \<open>M - 1\<close> rounds, where \<open>M\<close> is \<open>N\<close> rounded up to even; it
  has \<open>N (N - 1) / 2\<close> pairings in all; and every two different competitors meet in
  exactly one round, in exactly one pairing of that round (in either order), and in no
  pairing of any other round.
\<close>

theorem round_robin_complete:
  assumes "distinct (map name teams)" and "2 \<le> length teams"
  shows "length (roundRobin teams) = length teams + length teams mod 2 - 1 \<and>
         length (pairings (roundRobin teams)) = length teams * (length teams - 1) div 2 \<and>
         (\<forall>a \<in> set (map name teams). \<forall>b \<in> set (map name teams). a \<noteq> b \<longrightarrow>
            (\<exists>k < length (roundRobin teams).
               length (filter (meets a b) (matches (roundRobin teams ! k))) = 1 \<and>
               (\<forall>k' < length (roundRobin teams). k' \<noteq> k \<longrightarrow>
                  filter (meets a b) (matches (roundRobin teams ! k')) = [])))"
proof (intro conjI ballI impI)
  let ?t = "working_list teams"
  let ?n = "length ?t"
  show "length (roundRobin teams) = length teams + length teams mod 2 - 1"
    by (simp add: length_roundRobin length_working_list)
  show "length (pairings (roundRobin teams)) = length teams * (length teams - 1) div 2"
    by (rule length_pairings)
  fix a b
  assume "a \<in> set (map name teams)" "b \<in> set (map name teams)" and ab: "a \<noteq> b"
  then obtain p q where p: "p < length teams" "a = name (teams ! p)"
    and q: "q < length teams" "b = name (teams ! q)"
    by (auto simp: in_set_conv_nth)
  from ab p q have pq: "p \<noteq> q" by auto
  have n: "2 \<le> ?n" using assms(2) by (simp add: length_working_list)
  have pn: "p < ?n" and qn: "q < ?n" using p q by (simp_all add: length_working_list)
  have "\<exists>!r. r < ?n - 1 \<and> pos ?n r p + pos ?n r q = ?n - 1"
    by (rule meet_round [OF even_working_list n pn qn pq])
  then obtain k where k: "k < ?n - 1" "pos ?n k p + pos ?n k q = ?n - 1"
    and uniq: "\<And>r. r < ?n - 1 \<Longrightarrow> pos ?n r p + pos ?n r q = ?n - 1 \<Longrightarrow> r = k"
    by (elim ex1E conjE) blast
  have cnt: "length (filter (meets a b) (matches (roundRobin teams ! r))) =
             (if pos ?n r p + pos ?n r q = ?n - 1 then 1 else 0)" if "r < ?n - 1" for r
    unfolding nth_roundRobin [OF that] p(2) q(2)
    using round_meets_count [OF assms(1) p(1) q(1) n, of r] by simp
  show "\<exists>k < length (roundRobin teams).
               length (filter (meets a b) (matches (roundRobin teams ! k))) = 1 \<and>
               (\<forall>k' < length (roundRobin teams). k' \<noteq> k \<longrightarrow>
                  filter (meets a b) (matches (roundRobin teams ! k')) = [])"
  proof (intro exI conjI allI impI)
    show "k < length (roundRobin teams)" using k(1) by (simp add: length_roundRobin)
    show "length (filter (meets a b) (matches (roundRobin teams ! k))) = 1"
      using cnt [OF k(1)] k(2) by simp
  next
    fix k' assume k': "k' < length (roundRobin teams)" and ne: "k' \<noteq> k"
    then have lt: "k' < ?n - 1" by (simp add: length_roundRobin)
    have "pos ?n k' p + pos ?n k' q \<noteq> ?n - 1"
      using uniq [OF lt] ne by blast
    then have "length (filter (meets a b) (matches (roundRobin teams ! k'))) = 0"
      using cnt [OF lt] by simp
    then show "filter (meets a b) (matches (roundRobin teams ! k')) = []" by simp
  qed
qed

text \<open>
  C8. For every group of odd size with distinct names, the schedule has as many rounds
  as competitors, and every competitor has exactly one bye round: one round in which
  the name is in no pairing, while in every other round it is in a pairing. No pairing
  of any round involves the bye placeholder: the names of a round are names of the
  roster, and a round has \<open>(N - 1) / 2\<close> pairings.
\<close>

theorem one_bye_round:
  assumes "distinct (map name teams)" and "odd (length teams)"
  shows "length (roundRobin teams) = length teams \<and>
         (\<forall>c \<in> set teams.
            \<exists>k < length (roundRobin teams).
              name c \<notin> set (names_in (matches (roundRobin teams ! k))) \<and>
              (\<forall>k' < length (roundRobin teams). k' \<noteq> k \<longrightarrow>
                 name c \<in> set (names_in (matches (roundRobin teams ! k'))))) \<and>
         (\<forall>f \<in> set (roundRobin teams).
            set (names_in (matches f)) \<subseteq> set (map name teams) \<and>
            length (matches f) = (length teams - 1) div 2)"
proof -
  let ?t = "working_list teams"
  let ?n = "length ?t"
  have nN: "?n = length teams + 1"
    using assms(2) by (simp add: length_working_list odd_iff_mod_2_eq_one)
  then have n: "2 \<le> ?n" using assms(2) by (cases "length teams") simp_all
  have len: "length (roundRobin teams) = length teams"
    unfolding length_roundRobin nN by simp
  have bye: "\<exists>k < length (roundRobin teams).
              name c \<notin> set (names_in (matches (roundRobin teams ! k))) \<and>
              (\<forall>k' < length (roundRobin teams). k' \<noteq> k \<longrightarrow>
                 name c \<in> set (names_in (matches (roundRobin teams ! k'))))"
    if "c \<in> set teams" for c
  proof -
    from that obtain p where p: "p < length teams" "c = teams ! p"
      by (auto simp: in_set_conv_nth)
    have pn: "p < ?n" and Nn: "length teams < ?n" and pN: "p \<noteq> length teams"
      using p(1) nN by simp_all
    have "\<exists>!r. r < ?n - 1 \<and> pos ?n r p + pos ?n r (length teams) = ?n - 1"
      by (rule meet_round [OF even_working_list n pn Nn pN])
    then obtain k where k: "k < ?n - 1" "pos ?n k p + pos ?n k (length teams) = ?n - 1"
      and uniq: "\<And>r. r < ?n - 1 \<Longrightarrow> pos ?n r p + pos ?n r (length teams) = ?n - 1 \<Longrightarrow> r = k"
      by (elim ex1E conjE) blast
    have has: "name c \<in> set (names_in (matches (roundRobin teams ! r))) \<longleftrightarrow>
               pos ?n r p + pos ?n r (length teams) \<noteq> ?n - 1" if "r < ?n - 1" for r
      unfolding nth_roundRobin [OF that] p(2)
      using round_has_name [OF assms(1) p(1) assms(2), of r] by simp
    show ?thesis
    proof (intro exI conjI allI impI)
      show "k < length (roundRobin teams)" using k(1) by (simp add: length_roundRobin)
      show "name c \<notin> set (names_in (matches (roundRobin teams ! k)))"
        using has [OF k(1)] k(2) by simp
    next
      fix k' assume "k' < length (roundRobin teams)" and ne: "k' \<noteq> k"
      then have lt: "k' < ?n - 1" by (simp add: length_roundRobin)
      have "pos ?n k' p + pos ?n k' (length teams) \<noteq> ?n - 1"
        using uniq [OF lt] ne by blast
      then show "name c \<in> set (names_in (matches (roundRobin teams ! k')))"
        using has [OF lt] by simp
    qed
  qed
  have rounds: "set (names_in (matches f)) \<subseteq> set (map name teams) \<and>
          length (matches f) = (length teams - 1) div 2"
    if "f \<in> set (roundRobin teams)" for f
  proof -
    from that obtain k where k: "k < ?n - 1"
      and f: "f = \<lparr>round_no = int k + 1, matches = round_pairs ((rotate_tail ^^ k) ?t)\<rparr>"
      by (rule roundRobin_round)
    have ne: "?t \<noteq> []" using n by auto
    have sub: "set ?t \<subseteq> insert BYE (Team ` set teams)"
      by (auto simp: working_list_def)
    have "length teams div 2 = (length teams - 1) div 2"
      using assms(2) by (elim oddE) simp
    then show ?thesis
      unfolding f using round_names_subset [OF ne sub, of k] round_length [OF n, of k] by simp
  qed
  from len bye rounds show ?thesis by blast
qed

lemma roundRobin_four:
  "roundRobin [\<lparr>name = ''P'', rank = 1\<rparr>, \<lparr>name = ''Q'', rank = 2\<rparr>,
               \<lparr>name = ''R'', rank = 3\<rparr>, \<lparr>name = ''S'', rank = 4\<rparr>] =
     [\<lparr>round_no = 1, matches = [(''P'', ''S''), (''Q'', ''R'')]\<rparr>,
      \<lparr>round_no = 2, matches = [(''P'', ''R''), (''S'', ''Q'')]\<rparr>,
      \<lparr>round_no = 3, matches = [(''P'', ''Q''), (''R'', ''S'')]\<rparr>]"
  by (simp add: roundRobin_def rounds_loop.simps pairs_loop.simps rotate_tail_def Let_def)

lemma roundRobin_three:
  "roundRobin [\<lparr>name = ''P'', rank = 1\<rparr>, \<lparr>name = ''Q'', rank = 2\<rparr>, \<lparr>name = ''R'', rank = 3\<rparr>] =
     [\<lparr>round_no = 1, matches = [(''Q'', ''R'')]\<rparr>,
      \<lparr>round_no = 2, matches = [(''P'', ''R'')]\<rparr>,
      \<lparr>round_no = 3, matches = [(''P'', ''Q'')]\<rparr>]"
  by (simp add: roundRobin_def rounds_loop.simps pairs_loop.simps rotate_tail_def Let_def)

theorem round_robin_complete_witness:
  "distinct (map name [\<lparr>name = ''P'', rank = 1\<rparr>, \<lparr>name = ''Q'', rank = 2\<rparr>,
                       \<lparr>name = ''R'', rank = 3\<rparr>, \<lparr>name = ''S'', rank = 4\<rparr>]) \<and>
   2 \<le> length [\<lparr>name = ''P'', rank = 1\<rparr>, \<lparr>name = ''Q'', rank = 2\<rparr>,
                \<lparr>name = ''R'', rank = 3\<rparr>, \<lparr>name = ''S'', rank = 4\<rparr>] \<and>
   roundRobin [\<lparr>name = ''P'', rank = 1\<rparr>, \<lparr>name = ''Q'', rank = 2\<rparr>,
               \<lparr>name = ''R'', rank = 3\<rparr>, \<lparr>name = ''S'', rank = 4\<rparr>] =
     [\<lparr>round_no = 1, matches = [(''P'', ''S''), (''Q'', ''R'')]\<rparr>,
      \<lparr>round_no = 2, matches = [(''P'', ''R''), (''S'', ''Q'')]\<rparr>,
      \<lparr>round_no = 3, matches = [(''P'', ''Q''), (''R'', ''S'')]\<rparr>] \<and>
   length (roundRobin [\<lparr>name = ''P'', rank = 1\<rparr>, \<lparr>name = ''Q'', rank = 2\<rparr>,
               \<lparr>name = ''R'', rank = 3\<rparr>, \<lparr>name = ''S'', rank = 4\<rparr>]) = 3 \<and>
   length (pairings (roundRobin [\<lparr>name = ''P'', rank = 1\<rparr>, \<lparr>name = ''Q'', rank = 2\<rparr>,
               \<lparr>name = ''R'', rank = 3\<rparr>, \<lparr>name = ''S'', rank = 4\<rparr>])) = 6"
proof -
  let ?T = "[\<lparr>name = ''P'', rank = 1\<rparr>, \<lparr>name = ''Q'', rank = 2\<rparr>,
             \<lparr>name = ''R'', rank = 3\<rparr>, \<lparr>name = ''S'', rank = 4\<rparr>]"
  have d: "distinct (map name ?T)" by simp
  have l: "2 \<le> length ?T" by simp
  note c = round_robin_complete [OF d l]
  have "length (roundRobin ?T) = 3" using c [THEN conjunct1] by simp
  moreover have "length (pairings (roundRobin ?T)) = 6"
    using c [THEN conjunct2, THEN conjunct1] by simp
  ultimately show ?thesis using d l roundRobin_four by - (intro conjI; assumption)
qed

theorem one_bye_round_witness:
  "distinct (map name [\<lparr>name = ''P'', rank = 1\<rparr>, \<lparr>name = ''Q'', rank = 2\<rparr>, \<lparr>name = ''R'', rank = 3\<rparr>]) \<and>
   odd (length [\<lparr>name = ''P'', rank = 1\<rparr>, \<lparr>name = ''Q'', rank = 2\<rparr>, \<lparr>name = ''R'', rank = 3\<rparr>]) \<and>
   roundRobin [\<lparr>name = ''P'', rank = 1\<rparr>, \<lparr>name = ''Q'', rank = 2\<rparr>, \<lparr>name = ''R'', rank = 3\<rparr>] =
     [\<lparr>round_no = 1, matches = [(''Q'', ''R'')]\<rparr>,
      \<lparr>round_no = 2, matches = [(''P'', ''R'')]\<rparr>,
      \<lparr>round_no = 3, matches = [(''P'', ''Q'')]\<rparr>] \<and>
   length (roundRobin [\<lparr>name = ''P'', rank = 1\<rparr>, \<lparr>name = ''Q'', rank = 2\<rparr>,
                       \<lparr>name = ''R'', rank = 3\<rparr>]) = 3"
proof -
  let ?T = "[\<lparr>name = ''P'', rank = 1\<rparr>, \<lparr>name = ''Q'', rank = 2\<rparr>, \<lparr>name = ''R'', rank = 3\<rparr>]"
  have d: "distinct (map name ?T)" by simp
  have l: "odd (length ?T)" by simp
  have "length (roundRobin ?T) = 3"
    using one_bye_round [OF d l, THEN conjunct1] by simp
  then show ?thesis using d l roundRobin_three by - (intro conjI; assumption)
qed

theorem round_is_matching_witness:
  "distinct (map name [\<lparr>name = ''P'', rank = 1\<rparr>, \<lparr>name = ''Q'', rank = 2\<rparr>]) \<and>
   roundRobin [\<lparr>name = ''P'', rank = 1\<rparr>, \<lparr>name = ''Q'', rank = 2\<rparr>] =
     [\<lparr>round_no = 1, matches = [(''P'', ''Q'')]\<rparr>] \<and>
   distinct (names_in (matches \<lparr>round_no = 1, matches = [(''P'', ''Q'')]\<rparr>))"
proof -
  have d: "distinct (map name [\<lparr>name = ''P'', rank = 1\<rparr>, \<lparr>name = ''Q'', rank = 2\<rparr>])" by simp
  have ev: "roundRobin [\<lparr>name = ''P'', rank = 1\<rparr>, \<lparr>name = ''Q'', rank = 2\<rparr>] =
     [\<lparr>round_no = 1, matches = [(''P'', ''Q'')]\<rparr>]"
    by (simp add: roundRobin_def rounds_loop.simps pairs_loop.simps rotate_tail_def Let_def)
  have "\<lparr>round_no = 1, matches = [(''P'', ''Q'')]\<rparr>
          \<in> set (roundRobin [\<lparr>name = ''P'', rank = 1\<rparr>, \<lparr>name = ''Q'', rank = 2\<rparr>])"
    unfolding ev by simp
  with round_is_matching [OF d]
  have "distinct (names_in (matches \<lparr>round_no = 1, matches = [(''P'', ''Q'')]\<rparr>))"
    by blast
  with d ev show ?thesis by - (intro conjI; assumption)
qed

end
